theory Spec2Isabelle
  imports Complex_Main "HOL-Library.AList" "HOL-Library.Sublist"
begin

section \<open>Python strings and their case operations\<close>

text \<open>
  A Python \<open>str\<close> is a sequence of Unicode code points; it is modelled as a list of
  natural numbers, one per code point (so \<open>length\<close> is Python's \<open>len\<close>).
  Literals of the source are written with their code points in hexadecimal:
  \<open>0xE6\<close> is LATIN SMALL LETTER AE, \<open>0x430 .. 0x44F\<close> are the Cyrillic small
  letters a .. ya, \<open>0x1E9C\<close> is LATIN SMALL LETTER LONG S WITH DIAGONAL STROKE
  (the labialisation mark of the transliteration tables).
\<close>

type_synonym ustr = "nat list"

text \<open>ASCII literals of the source, as code points.\<close>

definition ascii :: "string \<Rightarrow> ustr" where
  "ascii s = map of_char s"

text \<open>
  \<open>str.lower()\<close>, \<open>str.upper()\<close> and \<open>str.isupper()\<close> are built-ins of the language.
  They are given here per code point, exactly as Unicode 14 (CPython 3.11) defines them on
  the blocks Basic Latin, Latin-1 Supplement, Latin Extended-A (\<open>0x0000 .. 0x017F\<close>),
  Cyrillic and Cyrillic Supplement (\<open>0x0400 .. 0x052F\<close>) and Latin Extended Additional
  (\<open>0x1E00 .. 0x1EFF\<close>), which hold every character of the module's tables; code points of
  other blocks are left unchanged. The result is a list because a case mapping may
  change the length (\<open>0x130\<close> lower-cases to two code points, \<open>0xDF\<close> upper-cases to
  \<open>SS\<close>).
\<close>

definition py_lower_cp :: "nat \<Rightarrow> ustr" where
  "py_lower_cp c =
    (if 0x41 \<le> c \<and> c \<le> 0x5A then [c + 32]
     else if 0xC0 \<le> c \<and> c \<le> 0xDE \<and> c \<noteq> 0xD7 then [c + 32]
     else if c = 0x130 then [0x69, 0x307]
     else if c = 0x178 then [0xFF]
     else if (0x100 \<le> c \<and> c \<le> 0x137 \<or> 0x14A \<le> c \<and> c \<le> 0x177) \<and> even c then [c + 1]
     else if (0x139 \<le> c \<and> c \<le> 0x148 \<or> 0x179 \<le> c \<and> c \<le> 0x17E) \<and> odd c then [c + 1]
     else if 0x400 \<le> c \<and> c \<le> 0x40F then [c + 80]
     else if 0x410 \<le> c \<and> c \<le> 0x42F then [c + 32]
     else if c = 0x4C0 then [0x4CF]
     else if 0x4C1 \<le> c \<and> c \<le> 0x4CE \<and> odd c then [c + 1]
     else if (0x460 \<le> c \<and> c \<le> 0x481 \<or> 0x48A \<le> c \<and> c \<le> 0x4BF
              \<or> 0x4D0 \<le> c \<and> c \<le> 0x52F) \<and> even c then [c + 1]
     else if c = 0x1E9E then [0xDF]
     else if (0x1E00 \<le> c \<and> c \<le> 0x1E95 \<or> 0x1EA0 \<le> c \<and> c \<le> 0x1EFF) \<and> even c then [c + 1]
     else [c])"

definition py_upper_cp :: "nat \<Rightarrow> ustr" where
  "py_upper_cp c =
    (if 0x61 \<le> c \<and> c \<le> 0x7A then [c - 32]
     else if c = 0xB5 then [0x39C]
     else if c = 0xDF then [0x53, 0x53]
     else if 0xE0 \<le> c \<and> c \<le> 0xFE \<and> c \<noteq> 0xF7 then [c - 32]
     else if c = 0xFF then [0x178]
     else if c = 0x131 then [0x49]
     else if c = 0x149 then [0x2BC, 0x4E]
     else if c = 0x17F then [0x53]
     else if (0x100 \<le> c \<and> c \<le> 0x137 \<or> 0x14A \<le> c \<and> c \<le> 0x177) \<and> odd c then [c - 1]
     else if (0x139 \<le> c \<and> c \<le> 0x148 \<or> 0x179 \<le> c \<and> c \<le> 0x17E) \<and> even c then [c - 1]
     else if 0x430 \<le> c \<and> c \<le> 0x44F then [c - 32]
     else if 0x450 \<le> c \<and> c \<le> 0x45F then [c - 80]
     else if c = 0x4CF then [0x4C0]
     else if 0x4C1 \<le> c \<and> c \<le> 0x4CE \<and> even c then [c - 1]
     else if (0x460 \<le> c \<and> c \<le> 0x481 \<or> 0x48A \<le> c \<and> c \<le> 0x4BF
              \<or> 0x4D0 \<le> c \<and> c \<le> 0x52F) \<and> odd c then [c - 1]
     else if c = 0x1E96 then [0x48, 0x331]
     else if c = 0x1E97 then [0x54, 0x308]
     else if c = 0x1E98 then [0x57, 0x30A]
     else if c = 0x1E99 then [0x59, 0x30A]
     else if c = 0x1E9A then [0x41, 0x2BE]
     else if c = 0x1E9B then [0x1E60]
     else if (0x1E00 \<le> c \<and> c \<le> 0x1E95 \<or> 0x1EA0 \<le> c \<and> c \<le> 0x1EFF) \<and> odd c then [c - 1]
     else [c])"

text \<open>
  \<open>ch.isupper()\<close> of a one-character string: on the blocks above the uppercase
  characters are exactly those that \<open>lower()\<close> changes.
\<close>

definition py_isupper_cp :: "nat \<Rightarrow> bool" where
  "py_isupper_cp c = (py_lower_cp c \<noteq> [c])"

definition py_lower :: "ustr \<Rightarrow> ustr" where
  "py_lower s = concat (map py_lower_cp s)"

definition py_upper :: "ustr \<Rightarrow> ustr" where
  "py_upper s = concat (map py_upper_cp s)"

text \<open>The slice \<open>text[i:j]\<close> for \<open>0 \<le> i \<le> j\<close>; it is cut short at the end of the string.\<close>

definition slice :: "ustr \<Rightarrow> nat \<Rightarrow> nat \<Rightarrow> ustr" where
  "slice text i j = take (j - i) (drop i text)"

section \<open>The tables of transliteration.py\<close>

text \<open>
  A dict literal is an association list in the order of the source; no key occurs
  twice. \<open>k in d\<close> and \<open>d[k]\<close> are \<open>dict_contains\<close> and \<open>dict_get\<close>; the source reads
  \<open>d[k]\<close> only after \<open>k in d\<close>.
\<close>

definition dict_contains :: "('k \<times> 'v) list \<Rightarrow> 'k \<Rightarrow> bool" where
  "dict_contains d k = (map_of d k \<noteq> None)"

definition dict_get :: "('k \<times> 'v) list \<Rightarrow> 'k \<Rightarrow> 'v" where
  "dict_get d k = the (map_of d k)"

definition LATIN_TO_CYRILLIC :: "(ustr \<times> ustr) list" where
  "LATIN_TO_CYRILLIC =
    [([0x61], [0x430]), ([0xE6], [0xE6]), ([0xE4], [0xE6]), ([0x62], [0x431]),
     ([0x63], [0x446]), ([0x10D], [0x447]), ([0x64], [0x434]),
     ([0x65], [0x435]), ([0x66], [0x444]), ([0x67], [0x433]), ([0x11F], [0x433, 0x44A]),
     ([0x68], [0x445]), ([0x69], [0x438]),
     ([0x6A], [0x439]), ([0x6B], [0x43A]), ([0x1E31], [0x43A, 0x44A]), ([0x6C], [0x43B]),
     ([0x6D], [0x43C]), ([0x6E], [0x43D]),
     ([0x6F], [0x43E]), ([0x70], [0x43F]), ([0x1E55], [0x43F, 0x44A]),
     ([0x71], [0x445, 0x44A]), ([0x72], [0x440]), ([0x73], [0x441]),
     ([0x161], [0x448]), ([0x74], [0x442]), ([0x1E6D], [0x442, 0x44A]), ([0x75], [0x443]),
     ([0x16B], [0x443]), ([0x76], [0x432]),
     ([0x77], [0x443]), ([0x78], [0x445]), ([0x79], [0x44B]), ([0x7A], [0x437]),
     ([0x17E], [0x436]), ([0x4D9], [0x443]),
     ([0x6B, 0x27], [0x43A, 0x44A]), ([0x70, 0x27], [0x43F, 0x44A]),
     ([0x74, 0x27], [0x442, 0x44A]), ([0x63, 0x27], [0x446, 0x44A]),
     ([0x6B, 0x1E9C], [0x445, 0x44A, 0x443]), ([0x67, 0x1E9C], [0x433, 0x44A, 0x443]),
     ([0x6B, 0x27, 0x1E9C], [0x43A, 0x44A, 0x443]),
     ([0x64, 0x7A], [0x434, 0x437]), ([0x64, 0x7A, 0x68], [0x434, 0x436])]"

definition CYRILLIC_TO_LATIN :: "(ustr \<times> ustr) list" where
  "CYRILLIC_TO_LATIN =
    [([0x430], [0x61]), ([0xE6], [0xE6]), ([0x431], [0x62]), ([0x432], [0x76]),
     ([0x433], [0x67]), ([0x433, 0x44A], [0x11F]),
     ([0x434], [0x64]), ([0x434, 0x436], [0x64, 0x7A, 0x68]), ([0x434, 0x437], [0x64, 0x7A]),
     ([0x435], [0x65]), ([0x451], [0x6A, 0x6F]), ([0x436], [0x17E]),
     ([0x437], [0x7A]), ([0x438], [0x69]), ([0x439], [0x6A]), ([0x43A], [0x6B]),
     ([0x43A, 0x44A], [0x6B, 0x27]), ([0x43B], [0x6C]),
     ([0x43C], [0x6D]), ([0x43D], [0x6E]), ([0x43E], [0x6F]), ([0x43F], [0x70]),
     ([0x43F, 0x44A], [0x70, 0x27]), ([0x440], [0x72]),
     ([0x441], [0x73]), ([0x442], [0x74]), ([0x442, 0x44A], [0x74, 0x27]),
     ([0x443], [0x75]), ([0x444], [0x66]), ([0x445], [0x68]),
     ([0x445, 0x44A], [0x71]), ([0x446], [0x63]), ([0x446, 0x44A], [0x63, 0x27]),
     ([0x447], [0x10D]), ([0x448], [0x161]), ([0x449], [0x161, 0x10D]), ([0x44A], []),
     ([0x44B], [0x79]), ([0x44C], []), ([0x44D], [0x65]), ([0x44E], [0x6A, 0x75]),
     ([0x44F], [0x6A, 0x61]),
     ([0x445, 0x44A, 0x443], [0x6B, 0x1E9C]), ([0x433, 0x44A, 0x443], [0x67, 0x1E9C]),
     ([0x43A, 0x44A, 0x443], [0x6B, 0x27, 0x1E9C])]"

text \<open>
  The values of \<open>SPECIAL_CASE_MAPPING\<close> are strings, except the last one, which is a
  list of strings.
\<close>

datatype pyval = Str ustr | StrList "ustr list"

definition SPECIAL_CASE_MAPPING :: "(ustr \<times> pyval) list" where
  "SPECIAL_CASE_MAPPING =
    [([0x74, 0xE6, 0x72, 0x71, 0x16B, 0x73], Str [0x442, 0xE6, 0x440, 0x445, 0x44A, 0x443, 0x441]),
     ([0x74, 0xE6, 0x72, 0x71, 0x6F, 0x73], Str [0x442, 0xE6, 0x440, 0x445, 0x44A, 0x443, 0x441]),
     ([0x74, 0xE4, 0x72, 0x71, 0x16B, 0x73], Str [0x442, 0xE6, 0x440, 0x445, 0x44A, 0x443, 0x441]),
     ([0x74, 0xE4, 0x72, 0x71, 0x6F, 0x73], Str [0x442, 0xE6, 0x440, 0x445, 0x44A, 0x443, 0x441]),
     ([0x442, 0xE6, 0x440, 0x445, 0x44A, 0x443, 0x441],
        StrList [[0x74, 0xE6, 0x72, 0x71, 0x16B, 0x73], [0x74, 0xE6, 0x72, 0x71, 0x6F, 0x73],
                 [0x74, 0xE4, 0x72, 0x71, 0x16B, 0x73], [0x74, 0xE4, 0x72, 0x71, 0x6F, 0x73]])]"

definition COMMON_VARIANTS :: "(ustr \<times> ustr list) list" where
  "COMMON_VARIANTS =
    [([0xE6], [[0xE4], [0x61], [0x65]]),
     ([0xE4], [[0xE6], [0x61], [0x65]]),
     ([0x16B], [[0x75]]),
     ([0x4D9], [[0x75], [0x79]]),
     ([0x1E9C], [[0x77]]),
     ([0x11F], [[0x67, 0x68]]),
     ([0x161], [[0x73, 0x68]]),
     ([0x17E], [[0x7A, 0x68]]),
     ([0x10D], [[0x63, 0x68]])]"

section \<open>latin_to_cyrillic and cyrillic_to_latin\<close>

text \<open>
  The \<open>while\<close> loops of \<open>latin_to_cyrillic\<close> and \<open>cyrillic_to_latin\<close> are the same text
  up to the table they read, so one function models both, with the table as a
  parameter. Its state is the index \<open>i\<close> and the string \<open>result\<close> built so far. The
  guards \<open>i < len(text) - 2\<close> and \<open>i < len(text) - 1\<close> are over Python's integers.
\<close>

function translit_loop :: "(ustr \<times> ustr) list \<Rightarrow> ustr \<Rightarrow> nat \<Rightarrow> ustr \<Rightarrow> ustr" where
  "translit_loop tbl text i result =
    (if i < length text then
       (if int i < int (length text) - 2 \<and> dict_contains tbl (py_lower (slice text i (i + 3)))
        then translit_loop tbl text (i + 3)
               (result @ dict_get tbl (py_lower (slice text i (i + 3))))
        else if int i < int (length text) - 1 \<and> dict_contains tbl (py_lower (slice text i (i + 2)))
        then translit_loop tbl text (i + 2)
               (result @ dict_get tbl (py_lower (slice text i (i + 2))))
        else if dict_contains tbl (py_lower [text ! i])
        then (if py_isupper_cp (text ! i)
              then translit_loop tbl text (i + 1)
                     (result @ py_upper (dict_get tbl (py_lower [text ! i])))
              else translit_loop tbl text (i + 1)
                     (result @ dict_get tbl (py_lower [text ! i])))
        else translit_loop tbl text (i + 1) (result @ [text ! i]))
     else result)"
  by pat_completeness auto
termination
  by (relation "measure (\<lambda>(tbl, text, i, result). length text - i)") auto

declare translit_loop.simps [simp del]

text \<open>
  \<open>latin_to_cyrillic\<close> returns the lexicon's value as it is, a string or a list;
  \<open>cyrillic_to_latin\<close> returns the first element when that value is a list (the only
  list of the lexicon is not empty).
\<close>

definition latin_to_cyrillic :: "ustr \<Rightarrow> pyval" where
  "latin_to_cyrillic text =
    (if dict_contains SPECIAL_CASE_MAPPING (py_lower text)
     then dict_get SPECIAL_CASE_MAPPING (py_lower text)
     else Str (translit_loop LATIN_TO_CYRILLIC text 0 []))"

definition cyrillic_to_latin :: "ustr \<Rightarrow> ustr" where
  "cyrillic_to_latin text =
    (if dict_contains SPECIAL_CASE_MAPPING (py_lower text)
     then (case dict_get SPECIAL_CASE_MAPPING (py_lower text) of
             StrList l \<Rightarrow> hd l
           | Str s \<Rightarrow> s)
     else translit_loop CYRILLIC_TO_LATIN text 0 [])"


text \<open>
  The specification describes the scan in its own words (4.1, steps 2 and 3): at each
  position try the 3-character slice, then the 2-character slice, then the single
  character, else pass the character through, and never go back. \<open>spec_scan_tokens\<close>
  follows that description on the rest of the input and records each token as the
  pair (input slice, output); for a single character it applies the casing of the code.
  It is compared with the loop of the source below.
\<close>

fun spec_scan_tokens :: "(ustr \<times> ustr) list \<Rightarrow> ustr \<Rightarrow> (ustr \<times> ustr) list" where
  "spec_scan_tokens tbl [] = []"
| "spec_scan_tokens tbl (c # cs) =
    (if 2 \<le> length cs \<and> dict_contains tbl (py_lower (c # take 2 cs))
     then (c # take 2 cs, dict_get tbl (py_lower (c # take 2 cs))) # spec_scan_tokens tbl (drop 2 cs)
     else if 1 \<le> length cs \<and> dict_contains tbl (py_lower (c # take 1 cs))
     then (c # take 1 cs, dict_get tbl (py_lower (c # take 1 cs))) # spec_scan_tokens tbl (drop 1 cs)
     else if dict_contains tbl (py_lower [c])
     then ([c], if py_isupper_cp c then py_upper (dict_get tbl (py_lower [c]))
                else dict_get tbl (py_lower [c])) # spec_scan_tokens tbl cs
     else ([c], [c]) # spec_scan_tokens tbl cs)"

section \<open>generate_variants and get_all_script_variants\<close>

text \<open>
  \<open>generate_variants\<close> collects the text and, for every position whose lower-cased
  character is a key of \<open>COMMON_VARIANTS\<close>, one string per substitute; it returns
  \<open>list(set(variants))\<close>. The order of that list is not fixed by the language: the
  model returns the strings without repetition in one order, and the theorems read the
  result only through \<open>set\<close>.
\<close>

definition variants_at :: "ustr \<Rightarrow> nat \<Rightarrow> ustr list" where
  "variants_at text i =
    (if dict_contains COMMON_VARIANTS (py_lower [text ! i])
     then map (\<lambda>variant_char. take i text @ variant_char @ drop (i + 1) text)
            (dict_get COMMON_VARIANTS (py_lower [text ! i]))
     else [])"

definition generate_variants :: "ustr \<Rightarrow> ustr list" where
  "generate_variants text = remdups (text # concat (map (variants_at text) [0..<length text]))"

text \<open>
  Exceptions are values. \<open>error_text\<close> is \<open>str(e)\<close>. A \<open>BackendError\<close> is whatever the
  search client raises; \<open>RuntimeError\<close> is what \<open>search_dictionary\<close> raises.
\<close>

datatype py_error = TypeError ustr | AttributeError ustr | BackendError ustr | RuntimeError ustr

fun error_text :: "py_error \<Rightarrow> ustr" where
  "error_text (TypeError m) = m"
| "error_text (AttributeError m) = m"
| "error_text (BackendError m) = m"
| "error_text (RuntimeError m) = m"

text \<open>
  \<open>get_all_script_variants\<close> builds a set and returns it as a list, again in an order
  the language does not fix. \<open>variants.add(cyrillic_variant)\<close> raises \<open>TypeError\<close> when
  \<open>latin_to_cyrillic\<close> has returned a list, which is not hashable.
\<close>

definition has_cyrillic :: "ustr \<Rightarrow> bool" where
  "has_cyrillic text = list_ex (\<lambda>char. dict_contains CYRILLIC_TO_LATIN [char]) (py_lower text)"

definition get_all_script_variants :: "ustr \<Rightarrow> py_error + ustr list" where
  "get_all_script_variants text =
    (let variants = [text];
         variants = (if dict_contains SPECIAL_CASE_MAPPING (py_lower text)
                     then (case dict_get SPECIAL_CASE_MAPPING (py_lower text) of
                             StrList special_variants \<Rightarrow> variants @ special_variants
                           | Str special_variants \<Rightarrow> variants @ [special_variants])
                     else variants)
     in if has_cyrillic text
        then (let latin_variant = cyrillic_to_latin text
              in Inr (remdups (variants @ [latin_variant] @ generate_variants latin_variant)))
        else (case latin_to_cyrillic text of
                StrList l \<Rightarrow> Inl (TypeError (ascii ''unhashable type: '' @ [0x27] @ ascii ''list'' @ [0x27]))
              | Str cyrillic_variant \<Rightarrow>
                  Inr (remdups (variants @ [cyrillic_variant] @ generate_variants text))))"



section \<open>The search client: data\<close>

text \<open>
  A hit is a Python dict. Its string-valued entries (\<open>id\<close>, \<open>term\<close>, \<open>definition\<close>,
  \<open>source\<close>, \<open>expanded_context\<close>, \<open>full_context\<close>) are an association list from the key
  to a value that is a string or \<open>None\<close>; assignment and \<open>del\<close> are \<open>AList.update\<close> and
  \<open>AList.delete\<close>, which keep the insertion order as a dict does. The entry
  \<open>_rankingScore\<close> is a number or is absent; a JSON number is a rational.
\<close>

datatype jval = JNull | JStr ustr

record hit =
  entries :: "(string \<times> jval) list"
  rankingScore :: "rat option"

text \<open>\<open>hit.get(k, default)\<close>; \<open>hit.get(k)\<close> has the default \<open>None\<close>.\<close>

definition hit_get :: "hit \<Rightarrow> string \<Rightarrow> jval \<Rightarrow> jval" where
  "hit_get h k dflt = (case map_of (entries h) k of None \<Rightarrow> dflt | Some v \<Rightarrow> v)"

definition hit_id :: "hit \<Rightarrow> jval" where
  "hit_id h = hit_get h ''id'' JNull"

definition hit_source :: "hit \<Rightarrow> jval" where
  "hit_source h = hit_get h ''source'' (JStr [])"

definition ranking_key :: "hit \<Rightarrow> rat" where
  "ranking_key x = (case rankingScore x of None \<Rightarrow> 0 | Some r \<Rightarrow> r)"

text \<open>
  A response of the backend, and the merged result, carry the hit list, the query, the
  processing time and the estimated number of hits. The options of a query are the
  \<open>search_params\<close> dict. The backend is a parameter of the model: a function from the
  query string and the options to a response or to the exception it raises.
\<close>

record response =
  hits :: "hit list"
  query :: ustr
  processingTimeMs :: int
  estimatedTotalHits :: int

record search_params =
  showRankingScore :: bool
  attributesToRetrieve :: "string list"
  limit_param :: int

type_synonym backend = "ustr \<Rightarrow> search_params \<Rightarrow> py_error + response"

section \<open>generate_expanded_context and process_search_results\<close>

definition EXPANDED_NOTE :: ustr where
  "EXPANDED_NOTE = [10, 10] @ ascii (''[Note: This is an expanded context view. '' @
     ''In a complete implementation, this would show surrounding entries and more '' @
     ''of the dictionary context. The current entry definition is shown above.]'')"

definition FULL_NOTE :: ustr where
  "FULL_NOTE = [10, 10] @ ascii (''[Note: This is a full context view. '' @
     ''In a complete implementation, this would show a large section of the dictionary '' @
     ''surrounding this entry, potentially including multiple pages of content. '' @
     ''The current entry definition is shown above.]'')"

text \<open>Python's truth value of a string or \<open>None\<close>.\<close>

definition py_truthy :: "jval \<Rightarrow> bool" where
  "py_truthy v = (case v of JNull \<Rightarrow> False | JStr s \<Rightarrow> s \<noteq> [])"

definition generate_expanded_context :: "jval \<Rightarrow> ustr \<Rightarrow> jval" where
  "generate_expanded_context definition_text context_size =
    (if \<not> py_truthy definition_text \<or> context_size = ascii ''default'' then JNull
     else if context_size = ascii ''expanded''
     then (case definition_text of JStr d \<Rightarrow> JStr (d @ EXPANDED_NOTE) | JNull \<Rightarrow> JNull)
     else if context_size = ascii ''full''
     then (case definition_text of JStr d \<Rightarrow> JStr (d @ FULL_NOTE) | JNull \<Rightarrow> JNull)
     else JNull)"

text \<open>
  \<open>process_search_results\<close> changes every hit of the list in place; \<open>process_hit\<close> is
  the body of its loops.
\<close>

definition process_hit :: "ustr \<Rightarrow> hit \<Rightarrow> hit" where
  "process_hit context_size h =
    (if context_size = ascii ''default''
     then h\<lparr>entries := AList.delete ''full_context''
                          (AList.delete ''expanded_context'' (entries h))\<rparr>
     else if context_size = ascii ''expanded''
     then (if \<not> dict_contains (entries h) ''expanded_context''
           then h\<lparr>entries := AList.update ''expanded_context''
                     (generate_expanded_context (hit_get h ''definition'' (JStr [])) context_size)
                     (entries h)\<rparr>
           else h)
     else if context_size = ascii ''full''
     then (if dict_contains (entries h) ''full_context''
           then h\<lparr>entries := AList.delete ''full_context''
                     (AList.update ''expanded_context'' (dict_get (entries h) ''full_context'')
                        (entries h))\<rparr>
           else h\<lparr>entries := AList.update ''expanded_context''
                     (generate_expanded_context (hit_get h ''definition'' (JStr [])) context_size)
                     (entries h)\<rparr>)
     else h)"

definition process_search_results :: "response \<Rightarrow> ustr \<Rightarrow> response" where
  "process_search_results results context_size =
     results\<lparr>hits := map (process_hit context_size) (hits results)\<rparr>"

section \<open>search_dictionary\<close>

text \<open>
  The two filters of \<open>search_dictionary\<close>. Their text occurs twice in the source, once
  in each branch, and is modelled once. The calls of \<open>print\<close> are left out.
\<close>

text \<open>The substring test \<open>a in b\<close> of two strings.\<close>

definition str_contains :: "ustr \<Rightarrow> ustr \<Rightarrow> bool" where
  "str_contains a b = list_ex (\<lambda>i. take (length a) (drop i b) = a) [0..<Suc (length b)]"

text \<open>The slice \<open>xs[:n]\<close>; a negative \<open>n\<close> counts from the end.\<close>

definition py_prefix :: "'a list \<Rightarrow> int \<Rightarrow> 'a list" where
  "py_prefix xs n = (if 0 \<le> n then take (nat n) xs else take (length xs - nat (- n)) xs)"

text \<open>
  The loop of the source filter. \<open>hit.get("source", "").lower()\<close> raises
  \<open>AttributeError\<close> when the source of the hit is \<open>None\<close>. The normalisation
  \<open>unicodedata.normalize('NFKC', .)\<close> is a parameter.
\<close>

fun source_filter_loop :: "(ustr \<Rightarrow> ustr) \<Rightarrow> ustr \<Rightarrow> hit list \<Rightarrow> hit list \<Rightarrow> py_error + hit list" where
  "source_filter_loop nfkc source_normalized [] filtered_hits = Inr filtered_hits"
| "source_filter_loop nfkc source_normalized (h # rest) filtered_hits =
    (case hit_get h ''source'' (JStr []) of
       JNull \<Rightarrow> Inl (AttributeError (ascii ''NoneType object has no attribute lower''))
     | JStr s \<Rightarrow>
         (if str_contains source_normalized (nfkc (py_lower s))
          then source_filter_loop nfkc source_normalized rest (filtered_hits @ [h])
          else source_filter_loop nfkc source_normalized rest filtered_hits))"

text \<open>
  The loop of the per-source cap, with its \<open>break\<close>: the state is the dict
  \<open>source_counts\<close> and the list \<open>filtered_hits\<close>.
\<close>

fun cap_loop :: "int \<Rightarrow> int \<Rightarrow> hit list \<Rightarrow> (jval \<rightharpoonup> int) \<Rightarrow> hit list \<Rightarrow> hit list" where
  "cap_loop limit limit_per_source [] source_counts filtered_hits = filtered_hits"
| "cap_loop limit limit_per_source (h # rest) source_counts filtered_hits =
    (let source_counts = (if source_counts (hit_source h) = None
                          then source_counts(hit_source h \<mapsto> 0) else source_counts)
     in if the (source_counts (hit_source h)) < limit_per_source
        then (if limit \<le> int (length (filtered_hits @ [h]))
              then filtered_hits @ [h]
              else cap_loop limit limit_per_source rest
                     (source_counts(hit_source h \<mapsto> the (source_counts (hit_source h)) + 1))
                     (filtered_hits @ [h]))
        else cap_loop limit limit_per_source rest source_counts filtered_hits)"

definition apply_limit_per_source :: "int \<Rightarrow> int \<Rightarrow> hit list \<Rightarrow> hit list" where
  "apply_limit_per_source limit limit_per_source hs = cap_loop limit limit_per_source hs Map.empty []"

text \<open>\<open>if source:\<close> holds for a string that is not empty.\<close>

definition source_given :: "ustr option \<Rightarrow> bool" where
  "source_given source = (case source of None \<Rightarrow> False | Some s \<Rightarrow> s \<noteq> [])"

definition filter_step ::
  "(ustr \<Rightarrow> ustr) \<Rightarrow> int \<Rightarrow> int \<Rightarrow> ustr option \<Rightarrow> hit list \<Rightarrow> py_error + hit list" where
  "filter_step nfkc limit limit_per_source source hs =
    (if source_given source
     then (case source_filter_loop nfkc (nfkc (py_lower (the source))) hs [] of
             Inl e \<Rightarrow> Inl e
           | Inr filtered_hits \<Rightarrow> Inr (py_prefix filtered_hits limit))
     else Inr (apply_limit_per_source limit limit_per_source hs))"

text \<open>
  The merge of the variant results. \<open>add_hits\<close> is the inner loop over the hits of one
  variant; \<open>merge_loop\<close> is the loop over the variants, which calls the backend once per
  variant and stops at the first exception. It also returns the list of the backend
  calls it has made.
\<close>

fun add_hits :: "hit list \<Rightarrow> jval set \<Rightarrow> hit list \<Rightarrow> jval set \<times> hit list" where
  "add_hits [] seen_ids merged_hits = (seen_ids, merged_hits)"
| "add_hits (h # rest) seen_ids merged_hits =
    (if hit_id h \<notin> seen_ids
     then add_hits rest (insert (hit_id h) seen_ids) (merged_hits @ [h])
     else add_hits rest seen_ids merged_hits)"

fun merge_loop ::
  "backend \<Rightarrow> search_params \<Rightarrow> ustr list \<Rightarrow> response \<Rightarrow> jval set \<Rightarrow>
   (ustr \<times> search_params) list \<Rightarrow> (ustr \<times> search_params) list \<times> (py_error + response)" where
  "merge_loop index_search params [] merged_results seen_ids calls = (calls, Inr merged_results)"
| "merge_loop index_search params (variant # rest) merged_results seen_ids calls =
    (case index_search variant params of
       Inl e \<Rightarrow> (calls @ [(variant, params)], Inl e)
     | Inr variant_result \<Rightarrow>
         merge_loop index_search params rest
           (merged_results\<lparr>
              processingTimeMs := processingTimeMs merged_results + processingTimeMs variant_result,
              hits := snd (add_hits (hits variant_result) seen_ids (hits merged_results)),
              estimatedTotalHits :=
                max (estimatedTotalHits merged_results) (estimatedTotalHits variant_result)\<rparr>)
           (fst (add_hits (hits variant_result) seen_ids (hits merged_results)))
           (calls @ [(variant, params)]))"

text \<open>
  \<open>sorted(hits, key = score, reverse = True)\<close> is stable: hits of equal score keep
  their order. It is the stable insertion sort on the negated score.
\<close>

definition sort_hits :: "hit list \<Rightarrow> hit list" where
  "sort_hits hs = sort_key (\<lambda>x. - ranking_key x) hs"

text \<open>
  Every exception inside \<open>search_dictionary\<close> is caught and raised again as a
  \<open>RuntimeError\<close>.
\<close>

definition wrap_error :: "py_error \<Rightarrow> py_error" where
  "wrap_error e = RuntimeError (ascii ''Search engine error: '' @ error_text e)"

definition make_search_params :: "int \<Rightarrow> ustr \<Rightarrow> ustr option \<Rightarrow> search_params" where
  "make_search_params limit context_size source =
    \<lparr>showRankingScore = True,
     attributesToRetrieve =
       [''term'', ''definition'', ''source'', ''id''] @
       (if context_size = ascii ''expanded'' then [''expanded_context'']
        else if context_size = ascii ''full'' then [''full_context''] else []),
     limit_param = (if source_given source then 100 else min 100 (limit * 2))\<rparr>"

text \<open>
  \<open>search_dictionary\<close> returns the list of the backend calls it has made, each with its
  query string and options, and either the result or the \<open>RuntimeError\<close> it raises.
\<close>

definition search_dictionary ::
  "backend \<Rightarrow> (ustr \<Rightarrow> ustr) \<Rightarrow> ustr \<Rightarrow> int \<Rightarrow> int \<Rightarrow> bool \<Rightarrow> ustr \<Rightarrow> ustr option \<Rightarrow>
   (ustr \<times> search_params) list \<times> (py_error + response)" where
  "search_dictionary index_search nfkc search_query limit limit_per_source use_transliteration
     context_size source =
    (let params = make_search_params limit context_size source in
     if \<not> use_transliteration
     then (case index_search search_query params of
             Inl e \<Rightarrow> ([(search_query, params)], Inl (wrap_error e))
           | Inr result \<Rightarrow>
               ([(search_query, params)],
                case filter_step nfkc limit limit_per_source source
                       (hits (process_search_results result context_size)) of
                  Inl e \<Rightarrow> Inl (wrap_error e)
                | Inr filtered_hits \<Rightarrow>
                    Inr ((process_search_results result context_size)\<lparr>hits := filtered_hits\<rparr>)))
     else (case get_all_script_variants search_query of
             Inl e \<Rightarrow> ([], Inl (wrap_error e))
           | Inr query_variants \<Rightarrow>
               (case merge_loop index_search params query_variants
                       \<lparr>hits = [], query = search_query, processingTimeMs = 0,
                        estimatedTotalHits = 0\<rparr> {} [] of
                  (calls, Inl e) \<Rightarrow> (calls, Inl (wrap_error e))
                | (calls, Inr merged_results) \<Rightarrow>
                    (calls,
                     case filter_step nfkc limit limit_per_source source
                            (sort_hits (hits merged_results)) of
                       Inl e \<Rightarrow> Inl (wrap_error e)
                     | Inr filtered_hits \<Rightarrow>
                         Inr (process_search_results
                                (merged_results\<lparr>hits := filtered_hits\<rparr>) context_size)))))"

text \<open>
  The specification's words for the merge (4.3, step 3): of the hits of all variants, in
  the order queried, keep for each identity the first one seen.
\<close>

fun spec_first_seen :: "hit list \<Rightarrow> hit list" where
  "spec_first_seen [] = []"
| "spec_first_seen (h # rest) = h # filter (\<lambda>k. hit_id k \<noteq> hit_id h) (spec_first_seen rest)"

text \<open>
  The specification's words for the per-source cap (4.3, step 5): a hit is kept while
  fewer than \<open>limitPerSource\<close> hits of its source stand before it in the list;
  \<open>earlier\<close> are the hits already passed.
\<close>

fun spec_per_source :: "int \<Rightarrow> hit list \<Rightarrow> hit list \<Rightarrow> hit list" where
  "spec_per_source limit_per_source earlier [] = []"
| "spec_per_source limit_per_source earlier (h # rest) =
    (if int (length (filter (\<lambda>k. hit_source k = hit_source h) earlier)) < limit_per_source
     then [h] else []) @
    spec_per_source limit_per_source (earlier @ [h]) rest"

text \<open>
  The hits of all variant responses, in the order in which the variants are queried.
\<close>

definition variant_hits :: "backend \<Rightarrow> search_params \<Rightarrow> ustr list \<Rightarrow> hit list" where
  "variant_hits index_search params variants =
     concat (map (\<lambda>variant. case index_search variant params of
                                Inr variant_result \<Rightarrow> hits variant_result
                              | Inl e \<Rightarrow> []) variants)"

text \<open>
  The invariant of the cap loop: after the hits \<open>earlier\<close>, the dict \<open>source_counts\<close> has
  a key for exactly the sources met so far, and its count is the number of hits of that
  source met so far, up to the cap.
\<close>

definition cap_invariant :: "int \<Rightarrow> hit list \<Rightarrow> (jval \<rightharpoonup> int) \<Rightarrow> bool" where
  "cap_invariant limit_per_source earlier source_counts =
    (\<forall>s. source_counts s =
       (if s \<in> hit_source ` set earlier
        then Some (min (int (length (filter (\<lambda>k. hit_source k = s) earlier)))
                       (max 0 limit_per_source))
        else None))"

section \<open>Example inputs\<close>

text \<open>
  A hit with an identity, a source and a score, and a backend given by a table from
  the query string to the hits it returns; it raises for a query that is not in
  the table.
\<close>

definition example_hit :: "string \<Rightarrow> string \<Rightarrow> rat \<Rightarrow> hit" where
  "example_hit ident src score =
     \<lparr>entries = [(''id'', JStr (ascii ident)), (''source'', JStr (ascii src))],
      rankingScore = Some score\<rparr>"

definition example_backend :: "(ustr \<times> hit list) list \<Rightarrow> backend" where
  "example_backend table variant params =
    (case map_of table variant of
       Some hs \<Rightarrow> Inr \<lparr>hits = hs, query = variant, processingTimeMs = 1,
                      estimatedTotalHits = int (length hs)\<rparr>
     | None \<Rightarrow> Inl (BackendError (ascii ''backend failed'')))"
section \<open>Properties of the transliterator\<close>

lemmas casing_defs = py_lower_def py_lower_cp_def py_upper_def py_upper_cp_def py_isupper_cp_def

lemmas dict_defs = dict_contains_def dict_get_def

lemma translit_loop_tokens:
  "i \<le> length text \<Longrightarrow>
   translit_loop tbl text i acc = acc @ concat (map snd (spec_scan_tokens tbl (drop i text)))"
proof (induction tbl "text" i acc rule: translit_loop.induct)
  case (1 tbl tx i result)
  show ?case
  proof (cases "i < length tx")
    case False
    with 1 have "i = length tx" by simp
    then show ?thesis by (subst translit_loop.simps) simp
  next
    case True
    let ?r = "drop (Suc i) tx"
    let ?C3 = "int i < int (length tx) - 2 \<and> dict_contains tbl (py_lower (slice tx i (i + 3)))"
    let ?C2 = "int i < int (length tx) - 1 \<and> dict_contains tbl (py_lower (slice tx i (i + 2)))"
    let ?k3 = "py_lower (tx ! i # take 2 ?r)"
    let ?k2 = "py_lower (tx ! i # take 1 ?r)"
    have d: "drop i tx = tx ! i # ?r"
      using True by (simp add: Cons_nth_drop_Suc)
    have s3: "slice tx i (i + 3) = tx ! i # take 2 ?r"
      by (simp add: slice_def d)
    have s2: "slice tx i (i + 2) = tx ! i # take 1 ?r"
      by (simp add: slice_def d)
    have g3: "(int i < int (length tx) - 2) = (2 \<le> length ?r)"
      by auto
    have g2: "(int i < int (length tx) - 1) = (1 \<le> length ?r)"
      by auto
    have dd3: "drop 2 ?r = drop (i + 3) tx" by (simp add: eval_nat_numeral)
    have dd2: "drop 1 ?r = drop (i + 2) tx" by (simp add: eval_nat_numeral)
    have dd1: "?r = drop (i + 1) tx" by simp
    consider (a) "?C3" | (b) "\<not> ?C3" "?C2" | (c) "\<not> ?C3" "\<not> ?C2"
      by blast
    then show ?thesis
    proof cases
      case a
      have le: "i + 3 \<le> length tx" using a by simp
      have tk: "spec_scan_tokens tbl (tx ! i # ?r) =
                  (tx ! i # take 2 ?r, dict_get tbl ?k3) # spec_scan_tokens tbl (drop 2 ?r)"
        by (subst spec_scan_tokens.simps) (simp only: a[unfolded s3 g3] simp_thms if_True)
      have "translit_loop tbl tx i result =
              translit_loop tbl tx (i + 3) (result @ dict_get tbl (py_lower (slice tx i (i + 3))))"
        by (subst translit_loop.simps) (simp only: True a simp_thms if_True)
      also have "\<dots> = (result @ dict_get tbl (py_lower (slice tx i (i + 3)))) @
                   concat (map snd (spec_scan_tokens tbl (drop (i + 3) tx)))"
        by (rule "1.IH"(1)[OF True a le])
      finally have e: "translit_loop tbl tx i result = (result @ dict_get tbl ?k3) @
                   concat (map snd (spec_scan_tokens tbl (drop (i + 3) tx)))"
        by (simp only: s3)
      show ?thesis unfolding e d tk dd3 by simp
    next
      case b
      have le: "i + 2 \<le> length tx" using b by simp
      have tk: "spec_scan_tokens tbl (tx ! i # ?r) =
                  (tx ! i # take 1 ?r, dict_get tbl ?k2) # spec_scan_tokens tbl (drop 1 ?r)"
        by (subst spec_scan_tokens.simps)
           (simp only: b(1)[unfolded s3 g3] b(2)[unfolded s2 g2] simp_thms if_True if_False)
      have "translit_loop tbl tx i result =
              translit_loop tbl tx (i + 2) (result @ dict_get tbl (py_lower (slice tx i (i + 2))))"
        by (subst translit_loop.simps) (simp only: True b simp_thms if_True if_False)
      also have "\<dots> = (result @ dict_get tbl (py_lower (slice tx i (i + 2)))) @
                   concat (map snd (spec_scan_tokens tbl (drop (i + 2) tx)))"
        by (rule "1.IH"(2)[OF True b le])
      finally have e: "translit_loop tbl tx i result = (result @ dict_get tbl ?k2) @
                   concat (map snd (spec_scan_tokens tbl (drop (i + 2) tx)))"
        by (simp only: s2)
      show ?thesis unfolding e d tk dd2 by simp
    next
      case c
      have le: "i + 1 \<le> length tx" using True by simp
      let ?D = "dict_contains tbl (py_lower [tx ! i])"
      let ?U = "py_isupper_cp (tx ! i)"
      let ?out = "if ?D then (if ?U then py_upper (dict_get tbl (py_lower [tx ! i]))
                              else dict_get tbl (py_lower [tx ! i]))
                  else [tx ! i]"
      have tk: "spec_scan_tokens tbl (tx ! i # ?r) = ([tx ! i], ?out) # spec_scan_tokens tbl ?r"
        by (subst spec_scan_tokens.simps,
            simp only: c(1)[unfolded s3 g3] c(2)[unfolded s2 g2] simp_thms if_False) simp
      have e: "translit_loop tbl tx i result = (result @ ?out) @
                   concat (map snd (spec_scan_tokens tbl (drop (i + 1) tx)))"
      proof (cases ?D)
        case D: True
        show ?thesis
        proof (cases ?U)
          case U: True
          have "translit_loop tbl tx i result =
                  translit_loop tbl tx (i + 1) (result @ py_upper (dict_get tbl (py_lower [tx ! i])))"
            by (subst translit_loop.simps) (simp only: True c D U simp_thms if_True if_False)
          also note "1.IH"(3)[OF True c D U le]
          finally show ?thesis by (simp only: D U if_True)
        next
          case U: False
          have "translit_loop tbl tx i result =
                  translit_loop tbl tx (i + 1) (result @ dict_get tbl (py_lower [tx ! i]))"
            by (subst translit_loop.simps) (simp only: True c D U simp_thms if_True if_False)
          also note "1.IH"(4)[OF True c D U le]
          finally show ?thesis by (simp only: D U if_True if_False)
        qed
      next
        case D: False
        have "translit_loop tbl tx i result = translit_loop tbl tx (i + 1) (result @ [tx ! i])"
          by (subst translit_loop.simps) (simp only: True c D simp_thms if_True if_False)
        also note "1.IH"(5)[OF True c D le]
        finally show ?thesis by (simp only: D if_False)
      qed
      show ?thesis unfolding e d tk dd1[symmetric] by simp
    qed
  qed
qed


lemma latin_to_cyrillic_tokens:
  "\<not> dict_contains SPECIAL_CASE_MAPPING (py_lower t) \<Longrightarrow>
   latin_to_cyrillic t = Str (concat (map snd (spec_scan_tokens LATIN_TO_CYRILLIC t)))"
  by (simp add: latin_to_cyrillic_def translit_loop_tokens)

lemma cyrillic_to_latin_tokens:
  "\<not> dict_contains SPECIAL_CASE_MAPPING (py_lower t) \<Longrightarrow>
   cyrillic_to_latin t = concat (map snd (spec_scan_tokens CYRILLIC_TO_LATIN t))"
  by (simp add: cyrillic_to_latin_def translit_loop_tokens)

lemma translit_loop_trigraph:
  assumes "dict_contains tbl (py_lower [a, b, c])"
  shows "translit_loop tbl (pre @ a # b # c # rest) (length pre) acc =
         translit_loop tbl (pre @ a # b # c # rest) (length pre + 3)
           (acc @ dict_get tbl (py_lower [a, b, c]))"
proof -
  have s: "slice (pre @ a # b # c # rest) (length pre) (length pre + 3) = [a, b, c]"
    by (simp add: slice_def)
  show ?thesis
    by (subst translit_loop.simps) (simp add: s assms)
qed

text \<open>
  Claim C3. For a word outside the special-case lexicon, both functions compute exactly
  the scan the specification describes: left to right, the 3-character slice first, then
  the 2-character slice, then the single character, else the character itself, with no
  backtracking. And wherever the loop of the source stands at a position where a
  3-character key of the table begins, it consumes the three characters as one unit
  and appends the value of that key.
\<close>

theorem C3_longest_match_first:
  "(\<not> dict_contains SPECIAL_CASE_MAPPING (py_lower t) \<longrightarrow>
      latin_to_cyrillic t = Str (concat (map snd (spec_scan_tokens LATIN_TO_CYRILLIC t))) \<and>
      cyrillic_to_latin t = concat (map snd (spec_scan_tokens CYRILLIC_TO_LATIN t))) \<and>
   (dict_contains tbl (py_lower [a, b, c]) \<longrightarrow>
      translit_loop tbl (pre @ a # b # c # rest) (length pre) acc =
      translit_loop tbl (pre @ a # b # c # rest) (length pre + 3)
        (acc @ dict_get tbl (py_lower [a, b, c])))"
  using latin_to_cyrillic_tokens cyrillic_to_latin_tokens translit_loop_trigraph by blast

theorem C3_witness:
  "cyrillic_to_latin [0x445, 0x44A, 0x443, 0x44B, 0x434] = [0x6B, 0x1E9C, 0x79, 0x64] \<and>
   translit_loop CYRILLIC_TO_LATIN [0x44B, 0x445, 0x44A, 0x443, 0x434] 1 [0x79] =
   translit_loop CYRILLIC_TO_LATIN [0x44B, 0x445, 0x44A, 0x443, 0x434] 4 [0x79, 0x6B, 0x1E9C]"
  using C3_longest_match_first [of "[0x445, 0x44A, 0x443, 0x44B, 0x434]" CYRILLIC_TO_LATIN
      "0x445" "0x44A" "0x443" "[0x44B]" "[0x434]" "[0x79]"]
  by (simp add: casing_defs dict_defs SPECIAL_CASE_MAPPING_def CYRILLIC_TO_LATIN_def)

lemma upper_values_l2c:
  "list_all (\<lambda>(k, v). v \<noteq> [] \<longrightarrow> py_isupper_cp (hd (py_upper v))) LATIN_TO_CYRILLIC"
  by (simp add: LATIN_TO_CYRILLIC_def casing_defs)

lemma upper_values_c2l:
  "list_all (\<lambda>(k, v). v \<noteq> [] \<longrightarrow> py_isupper_cp (hd (py_upper v))) CYRILLIC_TO_LATIN"
  by (simp add: CYRILLIC_TO_LATIN_def casing_defs)

lemma dict_get_in_set:
  "dict_contains d k \<Longrightarrow> (k, dict_get d k) \<in> set d"
  by (auto simp: dict_defs dest: map_of_SomeD)

lemma upper_value_first:
  assumes "list_all (\<lambda>(k, v). v \<noteq> [] \<longrightarrow> py_isupper_cp (hd (py_upper v))) tbl"
    and "dict_contains tbl k" and "py_upper (dict_get tbl k) \<noteq> []"
  shows "py_isupper_cp (hd (py_upper (dict_get tbl k)))"
proof -
  have "(k, dict_get tbl k) \<in> set tbl" using assms(2) by (rule dict_get_in_set)
  with assms(1) have "dict_get tbl k \<noteq> [] \<longrightarrow> py_isupper_cp (hd (py_upper (dict_get tbl k)))"
    by (auto simp: list_all_iff)
  moreover have "dict_get tbl k \<noteq> []" using assms(3) by (auto simp: py_upper_def)
  ultimately show ?thesis by simp
qed

lemma scan_tokens_single:
  "(s, out) \<in> set (spec_scan_tokens tbl t) \<Longrightarrow> length s = 1 \<Longrightarrow>
   dict_contains tbl (py_lower s) \<Longrightarrow>
   out = (if py_isupper_cp (hd s) then py_upper (dict_get tbl (py_lower s))
          else dict_get tbl (py_lower s))"
proof (induction tbl t rule: spec_scan_tokens.induct)
  case (1 tbl)
  then show ?case by simp
next
  case (2 tbl c cs)
  show ?case
  proof (cases "2 \<le> length cs \<and> dict_contains tbl (py_lower (c # take 2 cs))")
    case True
    with 2 show ?thesis by auto
  next
    case n3: False
    show ?thesis
    proof (cases "1 \<le> length cs \<and> dict_contains tbl (py_lower (c # take 1 cs))")
      case True
      with n3 2 show ?thesis by auto
    next
      case n2: False
      show ?thesis
      proof (cases "dict_contains tbl (py_lower [c])")
        case True
        with n3 n2 2 show ?thesis by auto
      next
        case False
        with n3 n2 2 show ?thesis by auto
      qed
    qed
  qed
qed

text \<open>
  Claim C2, as stated, fails. An uppercase input character that matches a single-character
  key has its whole mapped output upper-cased, not only the first character: LATIN
  CAPITAL LETTER G WITH BREVE (\<open>0x11E\<close>) gives the two capitals \<open>0x413 0x42A\<close>, where
  the table has \<open>0x433 0x44A\<close>. And a match of two characters gets no casing at all:
  \<open>Dz\<close> gives the small letters \<open>0x434 0x437\<close>.
\<close>

theorem C2_counterexample:
  "py_isupper_cp 0x11E \<and> latin_to_cyrillic [0x11E] = Str [0x413, 0x42A] \<and>
   dict_get LATIN_TO_CYRILLIC (py_lower [0x11E]) = [0x433, 0x44A] \<and>
   py_isupper_cp 0x44 \<and> latin_to_cyrillic [0x44, 0x7A] = Str [0x434, 0x437] \<and>
   \<not> py_isupper_cp 0x434"
  by (simp add: latin_to_cyrillic_tokens casing_defs dict_defs SPECIAL_CASE_MAPPING_def
      LATIN_TO_CYRILLIC_def)

text \<open>
  Claim C2, amended. For a word outside the special-case lexicon the output is the
  concatenation of the outputs of the scanned tokens, and a token that is a single
  character with a table entry is cased as a whole: when the input character is
  uppercase the output is the upper-cased table value (every character of it, so its
  first character, when there is one, is uppercase); otherwise it is the table value
  unchanged.
\<close>

theorem C2_single_character_case:
  "\<not> dict_contains SPECIAL_CASE_MAPPING (py_lower t) \<longrightarrow>
     latin_to_cyrillic t = Str (concat (map snd (spec_scan_tokens LATIN_TO_CYRILLIC t))) \<and>
     cyrillic_to_latin t = concat (map snd (spec_scan_tokens CYRILLIC_TO_LATIN t)) \<and>
     (\<forall>tbl \<in> {LATIN_TO_CYRILLIC, CYRILLIC_TO_LATIN}.
        \<forall>(s, out) \<in> set (spec_scan_tokens tbl t).
          length s = 1 \<and> dict_contains tbl (py_lower s) \<longrightarrow>
            (if py_isupper_cp (hd s)
             then out = py_upper (dict_get tbl (py_lower s)) \<and>
                  (out \<noteq> [] \<longrightarrow> py_isupper_cp (hd out))
             else out = dict_get tbl (py_lower s)))"
proof (intro impI conjI)
  assume ns: "\<not> dict_contains SPECIAL_CASE_MAPPING (py_lower t)"
  show "latin_to_cyrillic t = Str (concat (map snd (spec_scan_tokens LATIN_TO_CYRILLIC t)))"
    using ns by (rule latin_to_cyrillic_tokens)
  show "cyrillic_to_latin t = concat (map snd (spec_scan_tokens CYRILLIC_TO_LATIN t))"
    using ns by (rule cyrillic_to_latin_tokens)
  have one: "\<forall>(s, out) \<in> set (spec_scan_tokens tbl t).
             length s = 1 \<and> dict_contains tbl (py_lower s) \<longrightarrow>
               (if py_isupper_cp (hd s)
                then out = py_upper (dict_get tbl (py_lower s)) \<and>
                     (out \<noteq> [] \<longrightarrow> py_isupper_cp (hd out))
                else out = dict_get tbl (py_lower s))"
    if up: "list_all (\<lambda>(k, v). v \<noteq> [] \<longrightarrow> py_isupper_cp (hd (py_upper v))) tbl" for tbl
  proof (clarify)
    fix s out
    assume tok: "(s, out) \<in> set (spec_scan_tokens tbl t)" and len: "length s = 1"
      and dc: "dict_contains tbl (py_lower s)"
    have eq: "out = (if py_isupper_cp (hd s) then py_upper (dict_get tbl (py_lower s))
          else dict_get tbl (py_lower s))"
      using tok len dc by (rule scan_tokens_single)
    show "if py_isupper_cp (hd s)
          then out = py_upper (dict_get tbl (py_lower s)) \<and> (out \<noteq> [] \<longrightarrow> py_isupper_cp (hd out))
          else out = dict_get tbl (py_lower s)"
      using eq upper_value_first [OF up dc] by auto
  qed
  show "\<forall>tbl \<in> {LATIN_TO_CYRILLIC, CYRILLIC_TO_LATIN}.
           \<forall>(s, out) \<in> set (spec_scan_tokens tbl t).
             length s = 1 \<and> dict_contains tbl (py_lower s) \<longrightarrow>
               (if py_isupper_cp (hd s)
                then out = py_upper (dict_get tbl (py_lower s)) \<and>
                     (out \<noteq> [] \<longrightarrow> py_isupper_cp (hd out))
                else out = dict_get tbl (py_lower s))"
    using one [OF upper_values_l2c] one [OF upper_values_c2l] by blast
qed

theorem C2_witness:
  "latin_to_cyrillic [0x11E, 0xE6] = Str [0x413, 0x42A, 0xE6] \<and>
   ([0x11E], [0x413, 0x42A]) \<in> set (spec_scan_tokens LATIN_TO_CYRILLIC [0x11E, 0xE6]) \<and>
   py_isupper_cp (hd [0x413, 0x42A])"
  using C2_single_character_case [of "[0x11E, 0xE6]"]
  by (simp add: casing_defs dict_defs SPECIAL_CASE_MAPPING_def LATIN_TO_CYRILLIC_def)

text \<open>
  Claim C10. When the lower-cased input is the Cyrillic key of the special-case
  lexicon, \<open>latin_to_cyrillic\<close> returns the list of four Latin spellings, not a string;
  for every other input it returns a string.
\<close>

theorem C10_latin_to_cyrillic_list:
  "(py_lower t = [0x442, 0xE6, 0x440, 0x445, 0x44A, 0x443, 0x441] \<longrightarrow>
      latin_to_cyrillic t =
        StrList [[0x74, 0xE6, 0x72, 0x71, 0x16B, 0x73], [0x74, 0xE6, 0x72, 0x71, 0x6F, 0x73],
                 [0x74, 0xE4, 0x72, 0x71, 0x16B, 0x73], [0x74, 0xE4, 0x72, 0x71, 0x6F, 0x73]]) \<and>
   (py_lower t \<noteq> [0x442, 0xE6, 0x440, 0x445, 0x44A, 0x443, 0x441] \<longrightarrow>
      (\<exists>s. latin_to_cyrillic t = Str s))"
  by (simp add: latin_to_cyrillic_def dict_defs SPECIAL_CASE_MAPPING_def)

theorem C10_witness:
  "latin_to_cyrillic [0x422, 0xE6, 0x440, 0x445, 0x44A, 0x443, 0x441] =
     StrList [[0x74, 0xE6, 0x72, 0x71, 0x16B, 0x73], [0x74, 0xE6, 0x72, 0x71, 0x6F, 0x73],
              [0x74, 0xE4, 0x72, 0x71, 0x16B, 0x73], [0x74, 0xE4, 0x72, 0x71, 0x6F, 0x73]] \<and>
   (\<exists>s. latin_to_cyrillic [0x74, 0xE6, 0x72] = Str s)"
  using C10_latin_to_cyrillic_list [of "[0x422, 0xE6, 0x440, 0x445, 0x44A, 0x443, 0x441]"]
    C10_latin_to_cyrillic_list [of "[0x74, 0xE6, 0x72]"]
  by (simp add: casing_defs)
section \<open>Properties of the variant expander\<close>



















lemma lower_ae: "py_lower_cp 0xE6 = [0xE6]"
  by (simp add: py_lower_cp_def)

lemma ae_has_cyrillic: "0xE6 \<in> set w \<Longrightarrow> has_cyrillic w"
proof -
  assume "0xE6 \<in> set w"
  then have "0xE6 \<in> set (py_lower w)"
    unfolding py_lower_def using lower_ae by force
  moreover have "dict_contains CYRILLIC_TO_LATIN [0xE6]"
    by (simp add: dict_defs CYRILLIC_TO_LATIN_def)
  ultimately show ?thesis by (auto simp: has_cyrillic_def list_ex_iff)
qed

lemmas variant_defs = get_all_script_variants_def has_cyrillic_def
      generate_variants_def variants_at_def latin_to_cyrillic_tokens cyrillic_to_latin_tokens
      casing_defs dict_defs SPECIAL_CASE_MAPPING_def LATIN_TO_CYRILLIC_def CYRILLIC_TO_LATIN_def
      COMMON_VARIANTS_def Let_def




text \<open>
  Claim C1, as stated, fails in its consequence. The word \<open>0xE4 0xE6\<close> (a with
  diaeresis, ae) is Latin, contains \<open>ae\<close> and is outside the lexicon; its Cyrillic
  transliteration is \<open>0xE6 0xE6\<close>, and the collection contains that string, as a
  spelling variant of the \<open>cyrillic_to_latin\<close> image.
\<close>

theorem C1_counterexample:
  "\<not> dict_contains SPECIAL_CASE_MAPPING (py_lower [0xE4, 0xE6]) \<and>
   latin_to_cyrillic [0xE4, 0xE6] = Str [0xE6, 0xE6] \<and>
   get_all_script_variants [0xE4, 0xE6] =
     Inr [[0xE4, 0xE6], [0xE6, 0xE6], [0x61, 0xE6], [0x65, 0xE6], [0xE4, 0xE4], [0xE4, 0x61],
          [0xE4, 0x65]]"
  by (simp add: variant_defs cong: let_weak_cong)

text \<open>
  Claim C1, amended. A word that contains \<open>ae\<close> (\<open>0xE6\<close>) and is outside the
  special-case lexicon is classified as Cyrillic, and the collection returned for it
  is exactly the word itself, its \<open>cyrillic_to_latin\<close> image and the spelling variants
  of that image; \<open>latin_to_cyrillic\<close> has no part in it, so the Cyrillic
  transliteration of the word is in the collection only when it is one of those
  strings. For \<open>b ae x\<close> it is not, as the witness shows.
\<close>

theorem C1_ae_classified_cyrillic:
  "0xE6 \<in> set w \<and> \<not> dict_contains SPECIAL_CASE_MAPPING (py_lower w) \<longrightarrow>
     has_cyrillic w \<and>
     (\<exists>vs. get_all_script_variants w = Inr vs \<and>
           set vs = {w, cyrillic_to_latin w} \<union> set (generate_variants (cyrillic_to_latin w)))"
  by (auto simp: get_all_script_variants_def ae_has_cyrillic Let_def simp del: remdups.simps)

theorem C1_witness:
  "has_cyrillic [0x62, 0xE6, 0x78] \<and>
   latin_to_cyrillic [0x62, 0xE6, 0x78] = Str [0x431, 0xE6, 0x445] \<and>
   get_all_script_variants [0x62, 0xE6, 0x78] =
     Inr [[0x62, 0xE6, 0x78], [0x62, 0xE4, 0x78], [0x62, 0x61, 0x78], [0x62, 0x65, 0x78]]"
proof -
  have e: "\<not> dict_contains SPECIAL_CASE_MAPPING (py_lower [0x62, 0xE6, 0x78]) \<and>
     latin_to_cyrillic [0x62, 0xE6, 0x78] = Str [0x431, 0xE6, 0x445] \<and>
     get_all_script_variants [0x62, 0xE6, 0x78] =
       Inr [[0x62, 0xE6, 0x78], [0x62, 0xE4, 0x78], [0x62, 0x61, 0x78], [0x62, 0x65, 0x78]]"
    by (simp add: variant_defs cong: let_weak_cong)
  have "(0xE6::nat) \<in> set [0x62, 0xE6, 0x78]" by simp
  with e C1_ae_classified_cyrillic [of "[0x62, 0xE6, 0x78]"]
  have "has_cyrillic [0x62, 0xE6, 0x78]" by blast
  with e show ?thesis by blast
qed
section \<open>Properties of the search client\<close>

lemma context_sizes_distinct:
  "ascii ''full'' \<noteq> ascii ''default''" "ascii ''full'' \<noteq> ascii ''expanded''"
  "ascii ''expanded'' \<noteq> ascii ''default''"
  by (simp_all add: ascii_def)

lemma notes_distinct: "FULL_NOTE \<noteq> EXPANDED_NOTE"
  by (simp add: FULL_NOTE_def EXPANDED_NOTE_def ascii_def)

lemma generate_full:
  "d \<noteq> [] \<Longrightarrow> generate_expanded_context (JStr d) (ascii ''full'') = JStr (d @ FULL_NOTE)"
  by (simp add: generate_expanded_context_def py_truthy_def context_sizes_distinct)

lemma generate_expanded:
  "d \<noteq> [] \<Longrightarrow> generate_expanded_context (JStr d) (ascii ''expanded'') = JStr (d @ EXPANDED_NOTE)"
  by (simp add: generate_expanded_context_def py_truthy_def context_sizes_distinct)

lemma generate_empty: "generate_expanded_context (JStr []) cs = JNull"
  by (simp add: generate_expanded_context_def py_truthy_def)

lemma process_full_renames:
  assumes "dict_contains (entries h) ''full_context''"
  shows "map_of (entries (process_hit (ascii ''full'') h)) ''expanded_context'' =
           map_of (entries h) ''full_context''"
    and "\<not> dict_contains (entries (process_hit (ascii ''full'') h)) ''full_context''"
  using assms
  by (auto simp: process_hit_def context_sizes_distinct dict_defs AList.delete_conv'
      AList.update_conv')

lemma process_full_synthesizes:
  assumes "\<not> dict_contains (entries h) ''full_context''"
  shows "map_of (entries (process_hit (ascii ''full'') h)) ''expanded_context'' =
           Some (generate_expanded_context (hit_get h ''definition'' (JStr [])) (ascii ''full''))"
  using assms
  by (simp add: process_hit_def context_sizes_distinct AList.update_conv')

text \<open>
  Claim C8. With context size \<open>full\<close>, \<open>process_search_results\<close> shapes every hit of
  the list: a hit that has a \<open>full_context\<close> gets its value under \<open>expanded_context\<close>
  and loses the key \<open>full_context\<close>; a hit without one gets the context synthesized
  from its definition. For a definition that is not empty the synthesized context is
  the definition followed by the note for \<open>full\<close>, which is not empty and differs from
  the one synthesized for \<open>expanded\<close>; for the empty definition it is \<open>None\<close>, and
  nothing is raised.
\<close>

theorem C8_full_context_shaping:
  "(dict_contains (entries h) ''full_context'' \<longrightarrow>
      map_of (entries (process_hit (ascii ''full'') h)) ''expanded_context'' =
        map_of (entries h) ''full_context'' \<and>
      \<not> dict_contains (entries (process_hit (ascii ''full'') h)) ''full_context'') \<and>
   (\<not> dict_contains (entries h) ''full_context'' \<longrightarrow>
      map_of (entries (process_hit (ascii ''full'') h)) ''expanded_context'' =
        Some (generate_expanded_context (hit_get h ''definition'' (JStr [])) (ascii ''full''))) \<and>
   (d \<noteq> [] \<longrightarrow>
      generate_expanded_context (JStr d) (ascii ''full'') = JStr (d @ FULL_NOTE) \<and>
      d @ FULL_NOTE \<noteq> [] \<and>
      generate_expanded_context (JStr d) (ascii ''full'') \<noteq>
        generate_expanded_context (JStr d) (ascii ''expanded'')) \<and>
   generate_expanded_context (JStr []) (ascii ''full'') = JNull \<and>
   hits (process_search_results res (ascii ''full'')) =
     map (process_hit (ascii ''full'')) (hits res)"
  using process_full_renames [of h] process_full_synthesizes [of h] notes_distinct
  by (simp add: generate_full generate_expanded generate_empty process_search_results_def)

theorem C8_witness:
  "map_of (entries (process_hit (ascii ''full'')
       \<lparr>entries = [(''id'', JStr [0x31]), (''definition'', JStr [0x61]),
                   (''full_context'', JStr [0x62])], rankingScore = Some 1\<rparr>))
     ''expanded_context'' = Some (JStr [0x62]) \<and>
   map_of (entries (process_hit (ascii ''full'')
       \<lparr>entries = [(''id'', JStr [0x32]), (''definition'', JStr [0x61])],
        rankingScore = Some 1\<rparr>))
     ''expanded_context'' = Some (JStr ([0x61] @ FULL_NOTE))"
  using C8_full_context_shaping [of "\<lparr>entries = [(''id'', JStr [0x31]), (''definition'', JStr [0x61]),
                   (''full_context'', JStr [0x62])], rankingScore = Some 1\<rparr>" "[0x61]"]
    C8_full_context_shaping [of "\<lparr>entries = [(''id'', JStr [0x32]), (''definition'', JStr [0x61])],
        rankingScore = Some 1\<rparr>" "[0x61]"]
  by (simp add: dict_defs hit_get_def)

lemma add_hits_spec:
  "add_hits hs seen merged =
     (seen \<union> hit_id ` set hs,
      merged @ filter (\<lambda>k. hit_id k \<notin> seen) (spec_first_seen hs))"
proof (induction hs arbitrary: seen merged)
  case Nil
  show ?case by simp
next
  case (Cons h rest)
  show ?case
  proof (cases "hit_id h \<in> seen")
    case True
    have "filter (\<lambda>k. hit_id k \<noteq> hit_id h \<and> hit_id k \<notin> seen) (spec_first_seen rest) =
          filter (\<lambda>k. hit_id k \<notin> seen) (spec_first_seen rest)"
      using True by (intro filter_cong) auto
    with True show ?thesis by (auto simp: Cons.IH)
  next
    case False
    from False show ?thesis by (simp add: Cons.IH)
  qed
qed

lemma ids_first_seen: "hit_id ` set (spec_first_seen xs) = hit_id ` set xs"
proof (induction xs)
  case Nil
  show ?case by simp
next
  case (Cons h rest)
  have "hit_id ` set (filter (\<lambda>k. hit_id k \<noteq> hit_id h) (spec_first_seen rest)) =
        hit_id ` set (spec_first_seen rest) - {hit_id h}"
    by auto
  then show ?case by (simp add: Cons.IH)
qed

lemma first_seen_append:
  "spec_first_seen (xs @ ys) =
     spec_first_seen xs @ filter (\<lambda>k. hit_id k \<notin> hit_id ` set xs) (spec_first_seen ys)"
proof (induction xs)
  case Nil
  show ?case by simp
next
  case (Cons h rest)
  have "filter (\<lambda>k. hit_id k \<noteq> hit_id h \<and> hit_id k \<notin> hit_id ` set rest) (spec_first_seen ys) =
        filter (\<lambda>k. hit_id k \<notin> hit_id ` set (h # rest)) (spec_first_seen ys)"
    by (intro filter_cong) auto
  then show ?case by (simp add: Cons.IH conj_commute)
qed

lemma distinct_first_seen: "distinct (map hit_id (spec_first_seen xs))"
proof (induction xs)
  case Nil
  show ?case by simp
next
  case (Cons h rest)
  have "distinct (map hit_id (filter (\<lambda>k. hit_id k \<noteq> hit_id h) (spec_first_seen rest)))"
    using Cons.IH by (simp add: distinct_map_filter)
  then show ?case by auto
qed

lemma first_seen_unique:
  "i \<in> hit_id ` set xs \<Longrightarrow>
   filter (\<lambda>k. hit_id k = i) (spec_first_seen xs) = [the (find (\<lambda>k. hit_id k = i) xs)]"
proof (induction xs)
  case Nil
  then show ?case by simp
next
  case (Cons h rest)
  show ?case
  proof (cases "hit_id h = i")
    case True
    have "filter (\<lambda>k. hit_id k = i \<and> hit_id k \<noteq> hit_id h) (spec_first_seen rest) = []"
      using True by (auto simp: filter_empty_conv)
    with True show ?thesis by (simp add: conj_commute)
  next
    case False
    then have mem: "i \<in> hit_id ` set rest" using Cons.prems by auto
    have "filter (\<lambda>k. hit_id k \<noteq> hit_id h \<and> hit_id k = i) (spec_first_seen rest) =
          filter (\<lambda>k. hit_id k = i) (spec_first_seen rest)"
      using False by (intro filter_cong) auto
    with False Cons.IH [OF mem] show ?thesis by simp
  qed
qed

lemma merge_loop_spec:
  assumes "\<forall>v \<in> set vs. \<exists>r. idx v p = Inr r"
    and "seen = hit_id ` set pre" and "hits m = spec_first_seen pre"
  shows "\<exists>m'. merge_loop idx p vs m seen calls = (calls @ map (\<lambda>v. (v, p)) vs, Inr m') \<and>
              hits m' = spec_first_seen (pre @ variant_hits idx p vs)"
  using assms
proof (induction vs arbitrary: m seen calls pre)
  case Nil
  then show ?case by (simp add: variant_hits_def)
next
  case (Cons v rest)
  from Cons.prems(1) obtain r where r: "idx v p = Inr r" by auto
  let ?m = "m\<lparr>processingTimeMs := processingTimeMs m + processingTimeMs r,
              hits := snd (add_hits (hits r) seen (hits m)),
              estimatedTotalHits := max (estimatedTotalHits m) (estimatedTotalHits r)\<rparr>"
  let ?seen = "fst (add_hits (hits r) seen (hits m))"
  have h: "hits ?m = spec_first_seen (pre @ hits r)"
    by (simp add: add_hits_spec Cons.prems first_seen_append)
  have s: "?seen = hit_id ` set (pre @ hits r)"
    by (simp add: add_hits_spec Cons.prems image_Un)
  have rest: "\<forall>v \<in> set rest. \<exists>r. idx v p = Inr r" using Cons.prems(1) by simp
  have "\<exists>m'. merge_loop idx p rest ?m ?seen (calls @ [(v, p)]) =
        ((calls @ [(v, p)]) @ map (\<lambda>v. (v, p)) rest, Inr m') \<and>
      hits m' = spec_first_seen ((pre @ hits r) @ variant_hits idx p rest)"
    by (rule Cons.IH [OF rest s h])
  then obtain m' where m': "merge_loop idx p rest ?m ?seen (calls @ [(v, p)]) =
        ((calls @ [(v, p)]) @ map (\<lambda>v. (v, p)) rest, Inr m')"
      "hits m' = spec_first_seen ((pre @ hits r) @ variant_hits idx p rest)"
    by blast
  have vh: "variant_hits idx p (v # rest) = hits r @ variant_hits idx p rest"
    by (simp add: variant_hits_def r)
  show ?case using m' by (simp add: r vh)
qed

lemma filter_sort_hits: "filter P (sort_hits xs) = sort_hits (filter P xs)"
  by (simp add: sort_hits_def filter_sort)

text \<open>
  Claim C4. When every variant query succeeds, the merge loop has queried the variants
  in their order, and its hit list is the list of the hits of all variants in that
  order with, for each identity, only the first hit seen. So after the sort the
  identities are distinct, and for every identity that occurs in any variant result
  the sorted list holds exactly one hit with it: the first one seen, whatever the score
  of a later one.
\<close>

theorem C4_first_seen_wins:
  "(\<forall>v \<in> set vs. \<exists>r. idx v p = Inr r) \<longrightarrow>
     (\<exists>m. merge_loop idx p vs
             \<lparr>hits = [], query = q, processingTimeMs = 0, estimatedTotalHits = 0\<rparr> {} [] =
             (map (\<lambda>v. (v, p)) vs, Inr m) \<and>
          hits m = spec_first_seen (variant_hits idx p vs) \<and>
          distinct (map hit_id (sort_hits (hits m))) \<and>
          (\<forall>i \<in> hit_id ` set (variant_hits idx p vs).
             filter (\<lambda>k. hit_id k = i) (sort_hits (hits m)) =
               [the (find (\<lambda>k. hit_id k = i) (variant_hits idx p vs))]))"
proof
  assume ok: "\<forall>v \<in> set vs. \<exists>r. idx v p = Inr r"
  let ?init = "\<lparr>hits = [], query = q, processingTimeMs = 0, estimatedTotalHits = 0\<rparr>"
  have "\<exists>m'. merge_loop idx p vs ?init {} [] = ([] @ map (\<lambda>v. (v, p)) vs, Inr m') \<and>
              hits m' = spec_first_seen ([] @ variant_hits idx p vs)"
    by (rule merge_loop_spec [where idx = idx and p = p and vs = vs and pre = "[]"
          and seen = "{}" and calls = "[]"]) (use ok in simp_all)
  then obtain m where m: "merge_loop idx p vs ?init {} [] = (map (\<lambda>v. (v, p)) vs, Inr m)"
      "hits m = spec_first_seen (variant_hits idx p vs)"
    by auto
  have d: "distinct (map hit_id (sort_hits (hits m)))"
    using distinct_first_seen [of "variant_hits idx p vs"]
    by (simp add: m(2) sort_hits_def distinct_map)
  have u: "\<forall>i \<in> hit_id ` set (variant_hits idx p vs).
             filter (\<lambda>k. hit_id k = i) (sort_hits (hits m)) =
               [the (find (\<lambda>k. hit_id k = i) (variant_hits idx p vs))]"
  proof
    fix i assume i: "i \<in> hit_id ` set (variant_hits idx p vs)"
    have "filter (\<lambda>k. hit_id k = i) (sort_hits (hits m)) =
          sort_hits (filter (\<lambda>k. hit_id k = i) (spec_first_seen (variant_hits idx p vs)))"
      by (simp only: filter_sort_hits m(2))
    also have "\<dots> = sort_hits [the (find (\<lambda>k. hit_id k = i) (variant_hits idx p vs))]"
      by (simp only: first_seen_unique [OF i])
    also have "\<dots> = [the (find (\<lambda>k. hit_id k = i) (variant_hits idx p vs))]"
      by (simp add: sort_hits_def)
    finally show "filter (\<lambda>k. hit_id k = i) (sort_hits (hits m)) =
               [the (find (\<lambda>k. hit_id k = i) (variant_hits idx p vs))]" .
  qed
  from m d u show "\<exists>m. merge_loop idx p vs ?init {} [] = (map (\<lambda>v. (v, p)) vs, Inr m) \<and>
          hits m = spec_first_seen (variant_hits idx p vs) \<and>
          distinct (map hit_id (sort_hits (hits m))) \<and>
          (\<forall>i \<in> hit_id ` set (variant_hits idx p vs).
             filter (\<lambda>k. hit_id k = i) (sort_hits (hits m)) =
               [the (find (\<lambda>k. hit_id k = i) (variant_hits idx p vs))])"
    by blast
qed

theorem C4_witness:
  "\<exists>m. merge_loop
         (example_backend [([0x430], [example_hit ''doc_1'' ''s'' (3 / 10)]),
                           ([0x61], [example_hit ''doc_1'' ''s'' (9 / 10)])])
         (make_search_params 50 (ascii ''default'') None) [[0x430], [0x61]]
         \<lparr>hits = [], query = [0x61], processingTimeMs = 0, estimatedTotalHits = 0\<rparr> {} [] =
       (map (\<lambda>v. (v, make_search_params 50 (ascii ''default'') None)) [[0x430], [0x61]], Inr m) \<and>
     sort_hits (hits m) = [example_hit ''doc_1'' ''s'' (3 / 10)]"
proof -
  let ?bk = "example_backend [([0x430], [example_hit ''doc_1'' ''s'' (3 / 10)]),
                           ([0x61], [example_hit ''doc_1'' ''s'' (9 / 10)])]"
  let ?p = "make_search_params 50 (ascii ''default'') None"
  have ok: "\<forall>v \<in> set [[0x430], [0x61]]. \<exists>r. ?bk v ?p = Inr r"
    by (simp add: example_backend_def)
  have e: "spec_first_seen (variant_hits ?bk ?p [[0x430], [0x61]]) =
           [example_hit ''doc_1'' ''s'' (3 / 10)]"
    by (simp add: variant_hits_def example_backend_def example_hit_def hit_id_def hit_get_def)
  from C4_first_seen_wins [of "[[0x430], [0x61]]" ?bk ?p "[0x61]"] ok
  obtain m where "merge_loop ?bk ?p [[0x430], [0x61]]
         \<lparr>hits = [], query = [0x61], processingTimeMs = 0, estimatedTotalHits = 0\<rparr> {} [] =
       (map (\<lambda>v. (v, ?p)) [[0x430], [0x61]], Inr m)"
    "hits m = spec_first_seen (variant_hits ?bk ?p [[0x430], [0x61]])"
    by blast
  with e show ?thesis by (auto simp: sort_hits_def)
qed


lemma cap_invariant_empty: "cap_invariant lps [] Map.empty"
  by (simp add: cap_invariant_def)

lemma count_zero_if_absent:
  "s \<notin> hit_source ` set earlier \<Longrightarrow> filter (\<lambda>k. hit_source k = s) earlier = []"
  by (auto simp: filter_empty_conv)

lemma cap_invariant_lookup:
  assumes "cap_invariant lps earlier counts"
  shows "(if counts s = None then counts(s \<mapsto> 0) else counts) s =
         Some (min (int (length (filter (\<lambda>k. hit_source k = s) earlier))) (max 0 lps))"
proof (cases "s \<in> hit_source ` set earlier")
  case True
  with assms show ?thesis by (simp add: cap_invariant_def)
next
  case False
  with assms have "counts s = None" by (simp add: cap_invariant_def)
  with count_zero_if_absent [OF False] show ?thesis by simp
qed

lemma cap_invariant_other:
  assumes "cap_invariant lps earlier counts" and "s' \<noteq> hit_source h"
  shows "(if counts (hit_source h) = None then counts(hit_source h \<mapsto> 0) else counts) s' =
         (if s' \<in> hit_source ` set (earlier @ [h])
          then Some (min (int (length (filter (\<lambda>k. hit_source k = s') (earlier @ [h]))))
                         (max 0 lps))
          else None)"
  using assms by (auto simp: cap_invariant_def)

lemma cap_invariant_included:
  assumes inv: "cap_invariant lps earlier counts"
    and lt: "int (length (filter (\<lambda>k. hit_source k = hit_source h) earlier)) < lps"
  shows "cap_invariant lps (earlier @ [h])
           ((if counts (hit_source h) = None then counts(hit_source h \<mapsto> 0) else counts)
              (hit_source h \<mapsto>
                 min (int (length (filter (\<lambda>k. hit_source k = hit_source h) earlier)))
                     (max 0 lps) + 1))"
  unfolding cap_invariant_def
proof
  fix s'
  show "((if counts (hit_source h) = None then counts(hit_source h \<mapsto> 0) else counts)
              (hit_source h \<mapsto>
                 min (int (length (filter (\<lambda>k. hit_source k = hit_source h) earlier)))
                     (max 0 lps) + 1)) s' =
        (if s' \<in> hit_source ` set (earlier @ [h])
         then Some (min (int (length (filter (\<lambda>k. hit_source k = s') (earlier @ [h]))))
                        (max 0 lps))
         else None)"
  proof (cases "s' = hit_source h")
    case True
    with lt show ?thesis by simp
  next
    case False
    with cap_invariant_other [OF inv False] show ?thesis by simp
  qed
qed

lemma cap_invariant_skipped:
  assumes inv: "cap_invariant lps earlier counts"
    and ge: "\<not> int (length (filter (\<lambda>k. hit_source k = hit_source h) earlier)) < lps"
  shows "cap_invariant lps (earlier @ [h])
           (if counts (hit_source h) = None then counts(hit_source h \<mapsto> 0) else counts)"
  unfolding cap_invariant_def
proof
  fix s'
  show "(if counts (hit_source h) = None then counts(hit_source h \<mapsto> 0) else counts) s' =
        (if s' \<in> hit_source ` set (earlier @ [h])
         then Some (min (int (length (filter (\<lambda>k. hit_source k = s') (earlier @ [h]))))
                        (max 0 lps))
         else None)"
  proof (cases "s' = hit_source h")
    case True
    with ge cap_invariant_lookup [OF inv, of "hit_source h"] show ?thesis by simp
  next
    case False
    with cap_invariant_other [OF inv False] show ?thesis by simp
  qed
qed

lemma cap_loop_spec:
  assumes "cap_invariant lps earlier counts" and "int (length filtered) < limit"
  shows "cap_loop limit lps hs counts filtered =
         take (nat limit) (filtered @ spec_per_source lps earlier hs)"
  using assms
proof (induction hs arbitrary: counts filtered earlier)
  case Nil
  then show ?case by simp
next
  case (Cons h rest)
  let ?s = "hit_source h"
  let ?n = "int (length (filter (\<lambda>k. hit_source k = ?s) earlier))"
  let ?c0 = "if counts ?s = None then counts(?s \<mapsto> 0) else counts"
  have c0: "?c0 ?s = Some (min ?n (max 0 lps))"
    using Cons.prems(1) by (rule cap_invariant_lookup)
  have cond: "(min ?n (max 0 lps) < lps) = (?n < lps)" by auto
  show ?case
  proof (cases "?n < lps")
    case incl: True
    show ?thesis
    proof (cases "limit \<le> int (length (filtered @ [h]))")
      case True
      then have "cap_loop limit lps (h # rest) counts filtered = filtered @ [h]"
        using incl c0 cond by (simp add: Let_def)
      moreover have "nat limit = Suc (length filtered)"
        using True Cons.prems(2) by simp
      then have "take (nat limit) (filtered @ spec_per_source lps earlier (h # rest)) =
                     filtered @ [h]"
        using incl by simp
      ultimately show ?thesis by simp
    next
      case False
      then have lt: "int (length (filtered @ [h])) < limit" by simp
      have "cap_loop limit lps (h # rest) counts filtered =
            cap_loop limit lps rest (?c0(?s \<mapsto> min ?n (max 0 lps) + 1)) (filtered @ [h])"
        using False incl c0 cond by (simp add: Let_def)
      also have "\<dots> = take (nat limit)
                   ((filtered @ [h]) @ spec_per_source lps (earlier @ [h]) rest)"
        by (rule Cons.IH [OF cap_invariant_included [OF Cons.prems(1) incl] lt])
      finally show ?thesis using incl by simp
    qed
  next
    case skip: False
    have "cap_loop limit lps (h # rest) counts filtered =
          cap_loop limit lps rest ?c0 filtered"
      using skip c0 cond by (simp add: Let_def)
    also have "\<dots> = take (nat limit) (filtered @ spec_per_source lps (earlier @ [h]) rest)"
      by (rule Cons.IH [OF cap_invariant_skipped [OF Cons.prems(1) skip] Cons.prems(2)])
    finally show ?thesis using skip by simp
  qed
qed

lemma apply_limit_spec:
  "1 \<le> limit \<Longrightarrow>
   apply_limit_per_source limit lps hs = take (nat limit) (spec_per_source lps [] hs)"
  using cap_loop_spec [OF cap_invariant_empty, of "[]" limit lps hs]
  by (simp add: apply_limit_per_source_def)

lemma spec_per_source_count:
  "int (length (filter (\<lambda>k. hit_source k = s) (spec_per_source lps earlier hs))) \<le>
   max 0 (lps - int (length (filter (\<lambda>k. hit_source k = s) earlier)))"
proof (induction hs arbitrary: earlier)
  case Nil
  show ?case by simp
next
  case (Cons h rest)
  show ?case using Cons.IH [of "earlier @ [h]"] by auto
qed

lemma filter_take_length: "length (filter P (take n xs)) \<le> length (filter P xs)"
proof -
  have "filter P xs = filter P (take n xs) @ filter P (drop n xs)"
    by (metis append_take_drop_id filter_append)
  then show ?thesis by simp
qed

lemma spec_per_source_subseq: "subseq (spec_per_source lps earlier hs) hs"
  by (induction hs arbitrary: earlier) auto

lemma take_subseq: "subseq (take n xs) xs"
  by (metis append_take_drop_id prefixI prefix_imp_subseq)

lemma subseq_set_subset: "subseq xs ys \<Longrightarrow> set xs \<subseteq> set ys"
  by (induction xs ys rule: list_emb.induct) auto

lemma subseq_sorted_wrt:
  "subseq xs ys \<Longrightarrow> sorted_wrt R ys \<Longrightarrow> sorted_wrt R xs"
proof (induction xs ys rule: list_emb.induct)
  case (list_emb_Nil ys)
  show ?case by simp
next
  case (list_emb_Cons xs ys y)
  then show ?case by simp
next
  case (list_emb_Cons2 x y xs ys)
  from list_emb_Cons2.hyps(2) have "set xs \<subseteq> set ys" by (rule subseq_set_subset)
  with list_emb_Cons2 show ?case by auto
qed

lemma sort_hits_descending: "sorted_wrt (\<lambda>a b. ranking_key b \<le> ranking_key a) (sort_hits ms)"
proof -
  have "sorted (map (\<lambda>x. - ranking_key x) (sort_hits ms))"
    by (simp add: sort_hits_def sorted_sort_key)
  then show ?thesis by (simp add: sorted_map)
qed

lemma process_hit_source: "hit_source (process_hit cs h) = hit_source h"
  by (simp add: process_hit_def hit_source_def hit_get_def AList.update_conv' AList.delete_conv')

lemma process_hit_ranking: "ranking_key (process_hit cs h) = ranking_key h"
  by (simp add: process_hit_def ranking_key_def)

lemma cap_loop_subseq:
  "\<exists>zs. cap_loop limit lps hs counts filtered = filtered @ zs \<and> subseq zs hs"
proof (induction hs arbitrary: counts filtered)
  case Nil
  show ?case by simp
next
  case (Cons h rest)
  let ?c0 = "if counts (hit_source h) = None then counts(hit_source h \<mapsto> 0) else counts"
  show ?case
  proof (cases "the (?c0 (hit_source h)) < lps")
    case incl: True
    show ?thesis
    proof (cases "limit \<le> int (length (filtered @ [h]))")
      case True
      with incl have "cap_loop limit lps (h # rest) counts filtered = filtered @ [h]"
        by (simp add: Let_def)
      then show ?thesis by auto
    next
      case False
      with incl have e: "cap_loop limit lps (h # rest) counts filtered =
          cap_loop limit lps rest (?c0(hit_source h \<mapsto> the (?c0 (hit_source h)) + 1))
            (filtered @ [h])"
        by (simp add: Let_def)
      from Cons.IH [of "?c0(hit_source h \<mapsto> the (?c0 (hit_source h)) + 1)" "filtered @ [h]"]
      obtain zs where z: "cap_loop limit lps rest
            (?c0(hit_source h \<mapsto> the (?c0 (hit_source h)) + 1)) (filtered @ [h]) =
            (filtered @ [h]) @ zs" "subseq zs rest"
        by blast
      have "cap_loop limit lps (h # rest) counts filtered = filtered @ (h # zs)"
        by (simp only: e z(1) append_assoc append_Cons append_Nil)
      moreover have "subseq (h # zs) (h # rest)" using z(2) by (rule subseq_Cons2)
      ultimately show ?thesis by blast
    qed
  next
    case False
    then have e: "cap_loop limit lps (h # rest) counts filtered =
                  cap_loop limit lps rest ?c0 filtered"
      by (simp add: Let_def)
    from Cons.IH [of ?c0 filtered]
    obtain zs where z: "cap_loop limit lps rest ?c0 filtered = filtered @ zs" "subseq zs rest"
      by blast
    have "cap_loop limit lps (h # rest) counts filtered = filtered @ zs"
      by (simp only: e z(1))
    moreover have "subseq zs (h # rest)" using z(2) by (rule list_emb_Cons)
    ultimately show ?thesis by blast
  qed
qed

lemma apply_limit_subseq: "subseq (apply_limit_per_source limit lps hs) hs"
  using cap_loop_subseq [of limit lps hs Map.empty "[]"]
  by (auto simp: apply_limit_per_source_def)

lemma source_filter_subseq:
  "source_filter_loop nfkc sn hs acc = Inr out \<Longrightarrow> \<exists>zs. out = acc @ zs \<and> subseq zs hs"
proof (induction hs arbitrary: acc)
  case Nil
  then show ?case by simp
next
  case (Cons h rest)
  show ?case
  proof (cases "hit_get h ''source'' (JStr [])")
    case JNull
    with Cons.prems show ?thesis by simp
  next
    case (JStr s)
    show ?thesis
    proof (cases "str_contains sn (nfkc (py_lower s))")
      case True
      with JStr Cons.prems have "source_filter_loop nfkc sn rest (acc @ [h]) = Inr out" by simp
      from Cons.IH [OF this] obtain zs where "out = (acc @ [h]) @ zs" "subseq zs rest" by blast
      then have "out = acc @ (h # zs)" "subseq (h # zs) (h # rest)" by simp_all
      then show ?thesis by blast
    next
      case False
      with JStr Cons.prems have "source_filter_loop nfkc sn rest acc = Inr out" by simp
      from Cons.IH [OF this] obtain zs where z: "out = acc @ zs" "subseq zs rest" by blast
      have "subseq zs (h # rest)" using z(2) by (rule list_emb_Cons)
      with z(1) show ?thesis by blast
    qed
  qed
qed

lemma py_prefix_subseq: "subseq (py_prefix xs n) xs"
  by (simp add: py_prefix_def take_subseq)

lemma filter_step_subseq:
  "filter_step nfkc limit lps src hs = Inr out \<Longrightarrow> subseq out hs"
proof (cases "source_given src")
  case True
  assume a: "filter_step nfkc limit lps src hs = Inr out"
  with True obtain f where f: "source_filter_loop nfkc (nfkc (py_lower (the src))) hs [] = Inr f"
      "out = py_prefix f limit"
    by (auto simp: filter_step_def split: sum.splits)
  from source_filter_subseq [OF f(1)] have "subseq f hs" by simp
  with py_prefix_subseq [of f limit] f(2) show ?thesis
    using subseq_order.order_trans by blast
next
  case False
  assume "filter_step nfkc limit lps src hs = Inr out"
  with False show ?thesis by (auto simp: filter_step_def apply_limit_subseq)
qed

lemma merge_loop_fails:
  "\<exists>v \<in> set vs. \<exists>e. idx v p = Inl e \<Longrightarrow>
   \<exists>calls e. merge_loop idx p vs m seen c = (calls, Inl e) \<and> (\<exists>v \<in> set vs. idx v p = Inl e)"
proof (induction vs arbitrary: m seen c)
  case Nil
  then show ?case by simp
next
  case (Cons v rest)
  show ?case
  proof (cases "idx v p")
    case (Inl e)
    then show ?thesis by auto
  next
    case (Inr r)
    with Cons.prems have rest: "\<exists>v \<in> set rest. \<exists>e. idx v p = Inl e" by auto
    let ?m = "m\<lparr>processingTimeMs := processingTimeMs m + processingTimeMs r,
              hits := snd (add_hits (hits r) seen (hits m)),
              estimatedTotalHits := max (estimatedTotalHits m) (estimatedTotalHits r)\<rparr>"
    have e: "merge_loop idx p (v # rest) m seen c =
          merge_loop idx p rest ?m (fst (add_hits (hits r) seen (hits m))) (c @ [(v, p)])"
      using Inr by simp
    from Cons.IH [OF rest, of ?m "fst (add_hits (hits r) seen (hits m))" "c @ [(v, p)]"]
    show ?thesis unfolding e by auto
  qed
qed

lemma search_translit_success:
  assumes "snd (search_dictionary idx nfkc q limit lps True cs src) = Inr res"
  shows "\<exists>vs calls m out. get_all_script_variants q = Inr vs \<and>
           merge_loop idx (make_search_params limit cs src) vs
             \<lparr>hits = [], query = q, processingTimeMs = 0, estimatedTotalHits = 0\<rparr> {} [] =
             (calls, Inr m) \<and>
           filter_step nfkc limit lps src (sort_hits (hits m)) = Inr out \<and>
           res = process_search_results (m\<lparr>hits := out\<rparr>) cs"
  using assms
  by (auto simp: search_dictionary_def Let_def split: sum.splits prod.splits)

lemmas search_defs = search_dictionary_def make_search_params_def source_given_def
  filter_step_def apply_limit_per_source_def process_search_results_def process_hit_def
  example_backend_def example_hit_def hit_source_def hit_get_def hit_id_def ranking_key_def
  sort_hits_def wrap_error_def ascii_def AList.delete_eq variant_hits_def

text \<open>
  Claim C9, as stated, fails. The query \<open>a\<close> has two variants. The example backend
  answers the first and raises for the second; \<open>search_dictionary\<close> then returns no
  merged result at all: it raises \<open>RuntimeError\<close>, so the failure is not kept to the
  variant and the whole merge is aborted.
\<close>

theorem C9_counterexample:
  "get_all_script_variants [0x61] = Inr [[0x430], [0x61]] \<and>
   example_backend [([0x430], [example_hit ''a'' ''s'' 1])] [0x430]
       (make_search_params 50 (ascii ''default'') None) =
     Inr \<lparr>hits = [example_hit ''a'' ''s'' 1], query = [0x430], processingTimeMs = 1,
          estimatedTotalHits = 1\<rparr> \<and>
   snd (search_dictionary (example_backend [([0x430], [example_hit ''a'' ''s'' 1])]) (\<lambda>s. s)
          [0x61] 50 5 True (ascii ''default'') None) =
     Inl (RuntimeError (ascii ''Search engine error: backend failed''))"
proof -
  have v: "get_all_script_variants [0x61] = Inr [[0x430], [0x61]]"
    by (simp add: variant_defs cong: let_weak_cong)
  show ?thesis
    by (simp add: v search_dictionary_def make_search_params_def source_given_def
        example_backend_def wrap_error_def ascii_def Let_def)
qed


text \<open>
  Claim C9, amended. If the backend call of any variant raises, \<open>search_dictionary\<close>
  aborts the whole search: it raises \<open>RuntimeError\<close> whose text is that of the
  exception of a failed variant after the prefix \<open>Search engine error:\<close>, and it
  returns no merged result, hence no hit count either.
\<close>

theorem C9_variant_failure_aborts:
  "get_all_script_variants q = Inr vs \<and>
   (\<exists>v \<in> set vs. \<exists>e. idx v (make_search_params limit cs src) = Inl e) \<longrightarrow>
     (\<exists>e. snd (search_dictionary idx nfkc q limit lps True cs src) = Inl (wrap_error e) \<and>
          (\<exists>v \<in> set vs. idx v (make_search_params limit cs src) = Inl e))"
proof
  assume a: "get_all_script_variants q = Inr vs \<and>
   (\<exists>v \<in> set vs. \<exists>e. idx v (make_search_params limit cs src) = Inl e)"
  let ?p = "make_search_params limit cs src"
  let ?init = "\<lparr>hits = [], query = q, processingTimeMs = 0, estimatedTotalHits = 0\<rparr>"
  from a have "\<exists>v \<in> set vs. \<exists>e. idx v ?p = Inl e" by simp
  then have "\<exists>calls e. merge_loop idx ?p vs ?init {} [] = (calls, Inl e) \<and>
      (\<exists>v \<in> set vs. idx v ?p = Inl e)"
    by (rule merge_loop_fails [where idx = idx and p = "?p" and vs = vs])
  then obtain calls e where f: "merge_loop idx ?p vs ?init {} [] = (calls, Inl e)"
      "\<exists>v \<in> set vs. idx v ?p = Inl e"
    by blast
  have "snd (search_dictionary idx nfkc q limit lps True cs src) = Inl (wrap_error e)"
    using a f(1) by (simp add: search_dictionary_def Let_def)
  with f(2) show "\<exists>e. snd (search_dictionary idx nfkc q limit lps True cs src) = Inl (wrap_error e) \<and>
          (\<exists>v \<in> set vs. idx v ?p = Inl e)"
    by blast
qed

theorem C9_witness:
  "\<exists>e. snd (search_dictionary (example_backend [([0x430], [example_hit ''a'' ''s'' 1])]) (\<lambda>s. s)
          [0x61] 50 5 True (ascii ''default'') None) = Inl (wrap_error e)"
proof -
  have v: "get_all_script_variants [0x61] = Inr [[0x430], [0x61]]"
    by (simp add: variant_defs cong: let_weak_cong)
  have f: "\<exists>v \<in> set [[0x430], [0x61]]. \<exists>e.
      example_backend [([0x430], [example_hit ''a'' ''s'' 1])] v
        (make_search_params 50 (ascii ''default'') None) = Inl e"
    by (simp add: example_backend_def)
  from C9_variant_failure_aborts [of "[0x61]" "[[0x430], [0x61]]"
      "example_backend [([0x430], [example_hit ''a'' ''s'' 1])]" 50 "ascii ''default''" None
      "\<lambda>s. s" 5] v f
  show ?thesis by blast
qed

text \<open>
  Claim C6, as stated, fails. Without transliteration the hit list is not sorted: a
  backend that returns a hit of score 1/10 before a hit of score 9/10 gets them back in
  that order.
\<close>

theorem C6_counterexample:
  "snd (search_dictionary
          (example_backend [([0x31], [example_hit ''a'' ''s'' (1 / 10),
                                       example_hit ''b'' ''s'' (9 / 10)])])
          (\<lambda>s. s) [0x31] 50 5 False (ascii ''default'') None) =
     Inr \<lparr>hits = [example_hit ''a'' ''s'' (1 / 10), example_hit ''b'' ''s'' (9 / 10)],
          query = [0x31], processingTimeMs = 1, estimatedTotalHits = 2\<rparr> \<and>
   ranking_key (example_hit ''a'' ''s'' (1 / 10)) < ranking_key (example_hit ''b'' ''s'' (9 / 10))"
  by (simp add: search_defs Let_def cong: let_weak_cong)

text \<open>
  Claim C6, amended. Without transliteration \<open>search_dictionary\<close> makes exactly one
  backend call, with the query string as it is. It does not sort: it shapes the context
  of the backend's hits and applies the filter step to them in the backend's order.
  With no source filter the result is the backend's response with the per-source cap
  applied to its shaped hits; in every case the returned hits are a subsequence of the
  shaped hits of the backend.
\<close>

theorem C6_single_query_backend_order:
  "fst (search_dictionary idx nfkc q limit lps False cs src) =
     [(q, make_search_params limit cs src)] \<and>
   (idx q (make_search_params limit cs src) = Inr r \<and> \<not> source_given src \<longrightarrow>
      snd (search_dictionary idx nfkc q limit lps False cs src) =
        Inr (r\<lparr>hits := apply_limit_per_source limit lps (map (process_hit cs) (hits r))\<rparr>)) \<and>
   (idx q (make_search_params limit cs src) = Inr r \<and>
    snd (search_dictionary idx nfkc q limit lps False cs src) = Inr res \<longrightarrow>
      subseq (hits res) (map (process_hit cs) (hits r)))"
proof (intro conjI impI)
  show "fst (search_dictionary idx nfkc q limit lps False cs src) =
     [(q, make_search_params limit cs src)]"
    by (simp add: search_dictionary_def Let_def split: sum.splits)
next
  assume "idx q (make_search_params limit cs src) = Inr r \<and> \<not> source_given src"
  then show "snd (search_dictionary idx nfkc q limit lps False cs src) =
        Inr (r\<lparr>hits := apply_limit_per_source limit lps (map (process_hit cs) (hits r))\<rparr>)"
    by (simp add: search_dictionary_def Let_def filter_step_def process_search_results_def)
next
  assume a: "idx q (make_search_params limit cs src) = Inr r \<and>
    snd (search_dictionary idx nfkc q limit lps False cs src) = Inr res"
  then obtain out where o: "filter_step nfkc limit lps src (map (process_hit cs) (hits r)) = Inr out"
      "hits res = out"
    by (auto simp: search_dictionary_def Let_def process_search_results_def split: sum.splits)
  from filter_step_subseq [OF o(1)] o(2)
  show "subseq (hits res) (map (process_hit cs) (hits r))" by simp
qed

theorem C6_witness:
  "fst (search_dictionary
          (example_backend [([0x31], [example_hit ''a'' ''s'' (1 / 10),
                                       example_hit ''b'' ''s'' (9 / 10)])])
          (\<lambda>s. s) [0x31] 50 5 False (ascii ''default'') None) =
     [([0x31], make_search_params 50 (ascii ''default'') None)] \<and>
   snd (search_dictionary
          (example_backend [([0x31], [example_hit ''a'' ''s'' (1 / 10),
                                       example_hit ''b'' ''s'' (9 / 10)])])
          (\<lambda>s. s) [0x31] 50 5 False (ascii ''default'') None) =
     Inr \<lparr>hits = apply_limit_per_source 50 5
                   (map (process_hit (ascii ''default''))
                      [example_hit ''a'' ''s'' (1 / 10), example_hit ''b'' ''s'' (9 / 10)]),
          query = [0x31], processingTimeMs = 1, estimatedTotalHits = 2\<rparr>"
  using C6_single_query_backend_order [of
      "example_backend [([0x31], [example_hit ''a'' ''s'' (1 / 10),
                                   example_hit ''b'' ''s'' (9 / 10)])]"
      "\<lambda>s. s" "[0x31]" 50 5 "ascii ''default''" None
      "\<lparr>hits = [example_hit ''a'' ''s'' (1 / 10), example_hit ''b'' ''s'' (9 / 10)],
        query = [0x31], processingTimeMs = 1, estimatedTotalHits = 2\<rparr>"]
  by (simp add: example_backend_def source_given_def)

lemma capped_list_properties:
  assumes "1 \<le> limit"
  shows "\<forall>s. int (length (filter (\<lambda>k. hit_source k = s)
              (map (process_hit cs) (take (nat limit) (spec_per_source lps [] (sort_hits ms)))))) \<le>
            max 0 lps"
    and "int (length (map (process_hit cs)
              (take (nat limit) (spec_per_source lps [] (sort_hits ms))))) \<le> limit"
    and "sorted_wrt (\<lambda>a b. ranking_key b \<le> ranking_key a)
           (map (process_hit cs) (take (nat limit) (spec_per_source lps [] (sort_hits ms))))"
proof -
  let ?S = "spec_per_source lps [] (sort_hits ms)"
  let ?T = "take (nat limit) ?S"
  show "\<forall>s. int (length (filter (\<lambda>k. hit_source k = s) (map (process_hit cs) ?T))) \<le> max 0 lps"
  proof
    fix s
    have "length (filter (\<lambda>k. hit_source k = s) (map (process_hit cs) ?T)) =
          length (filter (\<lambda>k. hit_source k = s) ?T)"
      by (simp add: filter_map comp_def process_hit_source)
    also have "\<dots> \<le> length (filter (\<lambda>k. hit_source k = s) ?S)"
      by (rule filter_take_length)
    finally have "int (length (filter (\<lambda>k. hit_source k = s) (map (process_hit cs) ?T))) \<le>
                  int (length (filter (\<lambda>k. hit_source k = s) ?S))"
      by simp
    also have "\<dots> \<le> max 0 lps"
      using spec_per_source_count [of s lps "[]" "sort_hits ms"] by simp
    finally show "int (length (filter (\<lambda>k. hit_source k = s) (map (process_hit cs) ?T))) \<le>
                  max 0 lps" .
  qed
  show "int (length (map (process_hit cs) ?T)) \<le> limit"
    using assms by simp
  have "sorted_wrt (\<lambda>a b. ranking_key b \<le> ranking_key a) ?S"
    using spec_per_source_subseq sort_hits_descending by (rule subseq_sorted_wrt)
  then have "sorted_wrt (\<lambda>a b. ranking_key b \<le> ranking_key a) ?T"
    by (rule sorted_wrt_take)
  then show "sorted_wrt (\<lambda>a b. ranking_key b \<le> ranking_key a) (map (process_hit cs) ?T)"
    by (simp add: sorted_wrt_map process_hit_ranking)
qed

text \<open>
  Claim C5, as stated, fails for a limit below one. The loop tests the limit only after
  it has appended a hit, so with limit 0 the first admissible hit is returned: one hit,
  where the claim allows at most 0.
\<close>

theorem C5_counterexample:
  "apply_limit_per_source 0 5 [example_hit ''a'' ''s'' 1] = [example_hit ''a'' ''s'' 1] \<and>
   snd (search_dictionary (example_backend [([0x31], [example_hit ''a'' ''s'' 1])]) (\<lambda>s. s)
          [0x31] 0 5 True (ascii ''default'') None) =
     Inr \<lparr>hits = [example_hit ''a'' ''s'' 1], query = [0x31], processingTimeMs = 1,
          estimatedTotalHits = 1\<rparr>"
proof -
  have v: "get_all_script_variants [0x31] = Inr [[0x31]]"
    by (simp add: variant_defs cong: let_weak_cong)
  show ?thesis
    by (simp add: v search_defs Let_def cong: let_weak_cong)
qed

text \<open>
  Claim C5, amended. For a limit of at least one, the per-source cap returns the first
  \<open>limit\<close> hits of the list that keeps each hit while fewer than \<open>limit_per_source\<close>
  hits of its source stand before it: a hit of a capped source is skipped and the scan
  goes on, and it stops once \<open>limit\<close> hits are included. So when no source filter is
  given, a search with transliteration that succeeds returns at most
  \<open>limit_per_source\<close> hits of each source (none when that number is not positive), at
  most \<open>limit\<close> hits in all, in descending order of score.
\<close>

theorem C5_per_source_cap:
  "1 \<le> limit \<longrightarrow>
     apply_limit_per_source limit lps hs = take (nat limit) (spec_per_source lps [] hs) \<and>
     (\<not> source_given src \<and>
      snd (search_dictionary idx nfkc q limit lps True cs src) = Inr res \<longrightarrow>
        (\<exists>ms. hits res =
           map (process_hit cs) (take (nat limit) (spec_per_source lps [] (sort_hits ms)))) \<and>
        (\<forall>s. int (length (filter (\<lambda>k. hit_source k = s) (hits res))) \<le> max 0 lps) \<and>
        int (length (hits res)) \<le> limit \<and>
        sorted_wrt (\<lambda>a b. ranking_key b \<le> ranking_key a) (hits res))"
proof (intro impI conjI)
  assume l: "1 \<le> limit"
  then show "apply_limit_per_source limit lps hs = take (nat limit) (spec_per_source lps [] hs)"
    by (rule apply_limit_spec)
next
  assume l: "1 \<le> limit"
    and a: "\<not> source_given src \<and>
      snd (search_dictionary idx nfkc q limit lps True cs src) = Inr res"
  from a search_translit_success [of idx nfkc q limit lps cs src res]
  obtain m out where mo: "filter_step nfkc limit lps src (sort_hits (hits m)) = Inr out"
      "res = process_search_results (m\<lparr>hits := out\<rparr>) cs"
    by blast
  from mo(1) a have "out = apply_limit_per_source limit lps (sort_hits (hits m))"
    by (simp add: filter_step_def)
  with mo(2) have h: "hits res = map (process_hit cs)
      (take (nat limit) (spec_per_source lps [] (sort_hits (hits m))))"
    by (simp add: process_search_results_def apply_limit_spec [OF l])
  then show "\<exists>ms. hits res =
           map (process_hit cs) (take (nat limit) (spec_per_source lps [] (sort_hits ms)))"
    by blast
  show "\<forall>s. int (length (filter (\<lambda>k. hit_source k = s) (hits res))) \<le> max 0 lps"
    unfolding h by (rule capped_list_properties(1) [OF l])
  show "int (length (hits res)) \<le> limit"
    unfolding h by (rule capped_list_properties(2) [OF l])
  show "sorted_wrt (\<lambda>a b. ranking_key b \<le> ranking_key a) (hits res)"
    unfolding h by (rule capped_list_properties(3) [OF l])
qed

theorem C5_witness:
  "snd (search_dictionary
          (example_backend [([0x31], [example_hit ''a3'' ''A'' (6 / 10), example_hit ''b1'' ''B'' (5 / 10),
                                       example_hit ''a1'' ''A'' (9 / 10), example_hit ''a2'' ''A'' (8 / 10)])])
          (\<lambda>s. s) [0x31] 50 2 True (ascii ''default'') None) =
     Inr \<lparr>hits = [example_hit ''a1'' ''A'' (9 / 10), example_hit ''a2'' ''A'' (8 / 10),
                  example_hit ''b1'' ''B'' (5 / 10)],
          query = [0x31], processingTimeMs = 1, estimatedTotalHits = 4\<rparr> \<and>
   int (length [example_hit ''a1'' ''A'' (9 / 10), example_hit ''a2'' ''A'' (8 / 10),
                example_hit ''b1'' ''B'' (5 / 10)]) \<le> 50"
proof -
  let ?bk = "example_backend [([0x31], [example_hit ''a3'' ''A'' (6 / 10), example_hit ''b1'' ''B'' (5 / 10),
                                       example_hit ''a1'' ''A'' (9 / 10), example_hit ''a2'' ''A'' (8 / 10)])]"
  let ?res = "\<lparr>hits = [example_hit ''a1'' ''A'' (9 / 10), example_hit ''a2'' ''A'' (8 / 10),
                  example_hit ''b1'' ''B'' (5 / 10)],
          query = [0x31], processingTimeMs = 1, estimatedTotalHits = 4\<rparr>"
  have v: "get_all_script_variants [0x31] = Inr [[0x31]]"
    by (simp add: variant_defs cong: let_weak_cong)
  have e: "snd (search_dictionary ?bk (\<lambda>s. s) [0x31] 50 2 True (ascii ''default'') None) = Inr ?res"
    by (simp add: v search_defs Let_def cong: let_weak_cong)
  have s: "\<not> source_given None" by (simp add: source_given_def)
  from C5_per_source_cap [of 50 2 "[]" None ?bk "\<lambda>s. s" "[0x31]" "ascii ''default''" ?res] e s
  have "int (length (hits ?res)) \<le> 50" by simp
  with e show ?thesis by simp
qed

end
